theory Spec2Isabelle
  imports Complex_Main "HOL-Library.Sublist" "HOL-Library.AList"
begin

section \<open>Python values and errors\<close>

text \<open>
  The notebook is modelled function by function.  Python exceptions are values of
  \<open>error\<close>; a Python \<open>str\<close> is a \<open>string\<close>; a sequence of one-character strings
  (a mask, a padded word) is a \<open>string list\<close>; Python floats are idealised as reals and
  Python integers are \<open>int\<close>.  A \<open>dict\<close> whose iteration order can be observed is an
  association list in insertion order.
\<close>

datatype error = KeyError | TypeError | ValueError | IndexError

definition lower_char :: "char \<Rightarrow> char" where
  "lower_char c =
     (case map_of (zip ''ABCDEFGHIJKLMNOPQRSTUVWXYZ'' ''abcdefghijklmnopqrstuvwxyz'') c of
        Some d \<Rightarrow> d | None \<Rightarrow> c)"

definition lower :: "string \<Rightarrow> string" where
  \<comment> \<open>\<open>str.lower()\<close> on ASCII text.\<close>
  "lower s = map lower_char s"

definition chars_of :: "string \<Rightarrow> string list" where
  \<comment> \<open>Iterating over a Python \<open>str\<close> yields its one-character strings.\<close>
  "chars_of s = map (\<lambda>c. [c]) s"

definition py_index :: "'a list \<Rightarrow> int \<Rightarrow> error + 'a" where
  \<comment> \<open>\<open>xs[i]\<close>: a negative index counts from the end, out of range raises.\<close>
  "py_index xs i =
     (let len = int (length xs); j = (if i < 0 then len + i else i)
      in if 0 \<le> j \<and> j < len then Inr (xs ! nat j) else Inl IndexError)"

definition digit_char :: "nat \<Rightarrow> char" where
  "digit_char d = ''0123456789'' ! d"

fun str_nat :: "nat \<Rightarrow> string" where
  "str_nat n = (if n < 10 then [digit_char n] else str_nat (n div 10) @ [digit_char (n mod 10)])"

declare str_nat.simps [simp del]

definition str :: "int \<Rightarrow> string" where
  \<comment> \<open>\<open>str(i)\<close> for an integer: its decimal numeral.\<close>
  "str i = (if i < 0 then ''-'' @ str_nat (nat (- i)) else str_nat (nat i))"


section \<open>The game: \<open>hangman\<close>\<close>

type_synonym pymask = "string list"

fun str_contains :: "string \<Rightarrow> string \<Rightarrow> bool" where
  \<comment> \<open>\<open>guess in secret_word\<close> for two strings is the substring test.\<close>
  "str_contains [] g = (g = [])"
| "str_contains (c # cs) g = (prefix g (c # cs) \<or> str_contains cs g)"

definition reveal :: "string \<Rightarrow> string \<Rightarrow> pymask \<Rightarrow> pymask" where
  \<comment> \<open>\<open>for i, c in enumerate(secret_word): if c == guess: mask[i] = c\<close>\<close>
  "reveal secret_word guess msk =
     foldl (\<lambda>m (i, c). if [c] = guess then m[i := [c]] else m) msk (enumerate 0 secret_word)"

definition turn ::
  "string \<Rightarrow> string \<Rightarrow> pymask \<times> string set \<times> int \<Rightarrow> pymask \<times> string set \<times> int" where
  \<comment> \<open>The body of the \<open>while\<close> loop for a guess that is a string.\<close>
  "turn secret_word guess = (\<lambda>(msk, guessed, mistakes).
     if guess \<in> guessed then (msk, guessed, mistakes + 1)
     else if str_contains secret_word guess
          then (reveal secret_word guess msk, insert guess guessed, mistakes)
          else (msk, insert guess guessed, mistakes + 1))"

text \<open>
  A guess strategy is called with the mask and the guessed set and returns a value or
  raises; it may carry state of its own (a random generator, a script of guesses), which is
  threaded through as \<open>'s\<close>.  The strategy's keyword arguments are part of the closure.
  The value returned need not be a string: \<open>pyval\<close> has a string, \<open>None\<close>, an integer
  and a list, the last standing for the objects that cannot be hashed.
\<close>

datatype pyval = PStr string | PNone | PInt int | PList "string list"

fun is_str :: "pyval \<Rightarrow> bool" where
  "is_str (PStr g) = True"
| "is_str v = False"

fun str_val :: "pyval \<Rightarrow> string" where
  "str_val (PStr g) = g"
| "str_val v = []"

text \<open>
  A guess that is not a string makes \<open>hangman\<close> itself raise \<open>TypeError\<close>: for a list
  already at \<open>guess in guessed\<close> (it cannot be hashed), for \<open>None\<close> or an integer at
  \<open>guess in secret_word\<close>, after \<open>guessed.add(guess)\<close> (a string is required on the left
  of \<open>in\<close>, and the value is in no set of strings).  So the guessed set holds only
  strings whenever the strategy is called.  The loop is a partial function: \<open>None\<close> would
  be a game that runs forever.
\<close>

partial_function (option) hangman_loop ::
  "string \<Rightarrow> ('s \<Rightarrow> pymask \<Rightarrow> string set \<Rightarrow> error + pyval \<times> 's) \<Rightarrow> int
     \<Rightarrow> 's \<Rightarrow> pymask \<times> string set \<times> int \<Rightarrow> (error + int) option" where
  "hangman_loop secret_word guesser max_mistakes gs st =
     (case st of (msk, guessed, mistakes) \<Rightarrow>
      if mistakes < max_mistakes then
        (case guesser gs msk guessed of
           Inl e \<Rightarrow> Some (Inl e)
         | Inr (guess, gs') \<Rightarrow>
             if \<not> is_str guess then Some (Inl TypeError)
             else
               (case turn secret_word (str_val guess) (msk, guessed, mistakes) of
                  (msk', guessed', mistakes') \<Rightarrow>
                    if ''_'' \<notin> set msk' then Some (Inr mistakes')
                    else hangman_loop secret_word guesser max_mistakes gs'
                           (msk', guessed', mistakes')))
      else Some (Inr mistakes))"

definition hangman ::
  "string \<Rightarrow> ('s \<Rightarrow> pymask \<Rightarrow> string set \<Rightarrow> error + pyval \<times> 's) \<Rightarrow> 's \<Rightarrow> int
     \<Rightarrow> (error + int) option" where
  "hangman secret_word guesser gs max_mistakes =
     hangman_loop (lower secret_word) guesser max_mistakes gs
       (replicate (length (lower secret_word)) ''_'', {}, 0)"

text \<open>Two strategies used as concrete inputs: a constant guess and a scripted sequence.\<close>

definition always :: "pyval \<Rightarrow> unit \<Rightarrow> pymask \<Rightarrow> string set \<Rightarrow> error + pyval \<times> unit" where
  "always g = (\<lambda>_ _ _. Inr (g, ()))"



section \<open>The table builder: \<open>convert_word\<close>, \<open>get_unigram_counts\<close>, \<open>get_ngram_counts\<close>\<close>

function start_loop :: "int \<Rightarrow> int \<Rightarrow> string list \<Rightarrow> string list" where
  "start_loop n start_index start =
     (if start_index < n
      then start_loop n (start_index + 1) (start @ [''<s'' @ str start_index @ ''>''])
      else start)"
  by pat_completeness auto
termination
  by (relation "measure (\<lambda>(n, start_index, start). nat (n - start_index))") auto

declare start_loop.simps [simp del]

function end_loop :: "int \<Rightarrow> string list \<Rightarrow> string list" where
  "end_loop end_index end =
     (if end_index > 1
      then end_loop (end_index - 1) (end @ [''</s'' @ str (end_index - 1) @ ''>''])
      else end)"
  by pat_completeness auto
termination
  by (relation "measure (\<lambda>(end_index, end). nat end_index)") auto

declare end_loop.simps [simp del]

definition convert_word :: "string list \<Rightarrow> int \<Rightarrow> string list" where
  "convert_word word n = start_loop n 1 [] @ map lower word @ end_loop n []"

text \<open>
  A \<open>Counter\<close> maps letters to counts; reading a missing letter gives 0 and inserts
  nothing.  A \<open>defaultdict(Counter)\<close> maps a context key to a \<open>Counter\<close>; reading a missing
  key inserts an empty \<open>Counter\<close> under it.  The order-2 table is keyed by one symbol (a
  \<open>str\<close>), the tables of order 3 to 5 by tuples of symbols.
\<close>

datatype pykey = KStr string | KTuple "string list"

type_synonym counter = "(string \<times> nat) list"
type_synonym table = "(pykey \<times> counter) list"
type_synonym weights = "nat \<rightharpoonup> real"

definition counter_get :: "counter \<Rightarrow> string \<Rightarrow> nat" where
  "counter_get c l = (case map_of c l of Some v \<Rightarrow> v | None \<Rightarrow> 0)"

definition counter_total :: "counter \<Rightarrow> nat" where
  \<comment> \<open>\<open>sum(c.values())\<close>\<close>
  "counter_total c = sum_list (map snd c)"

definition counter_incr :: "counter \<Rightarrow> string \<Rightarrow> counter" where
  \<comment> \<open>\<open>c[l] += 1\<close>\<close>
  "counter_incr c l = AList.update l (counter_get c l + 1) c"

definition dd_get :: "table \<Rightarrow> pykey \<Rightarrow> counter \<times> table" where
  \<comment> \<open>\<open>d[k]\<close> on a \<open>defaultdict(Counter)\<close>: the value and the table after the read.\<close>
  "dd_get T k = (case map_of T k of Some c \<Rightarrow> (c, T) | None \<Rightarrow> ([], T @ [(k, [])]))"

definition dd_incr :: "table \<Rightarrow> pykey \<Rightarrow> string \<Rightarrow> table" where
  \<comment> \<open>\<open>d[k][l] += 1\<close>\<close>
  "dd_incr T k l = (case dd_get T k of (c, T') \<Rightarrow> AList.update k (counter_incr c l) T')"

definition get_unigram_counts :: "string list \<Rightarrow> counter" where
  "get_unigram_counts words =
     foldl (\<lambda>unigram_counts word. foldl counter_incr unigram_counts (chars_of word)) [] words"

definition n_grams :: "string list \<Rightarrow> int \<Rightarrow> string list list" where
  \<comment> \<open>\<open>[word[i:i+n] for i in range(len(word)-(n-1))]\<close>; the slices are only used for
      \<open>n\<close> from 2 to 5, where \<open>word[i:i+n]\<close> is \<open>take n (drop i word)\<close>.\<close>
  "n_grams word n =
     map (\<lambda>i. take (nat n) (drop i word)) [0..<nat (int (length word) - (n - 1))]"

definition record_n_gram :: "int \<Rightarrow> table \<Rightarrow> string list \<Rightarrow> table" where
  "record_n_gram n ngram_counts n_gram =
     (if n = 2 then dd_incr ngram_counts (KStr (n_gram ! 0)) (n_gram ! 1)
      else if n = 3 then dd_incr ngram_counts (KTuple [n_gram ! 0, n_gram ! 1]) (n_gram ! 2)
      else if n = 4 then
        dd_incr ngram_counts (KTuple [n_gram ! 0, n_gram ! 1, n_gram ! 2]) (n_gram ! 3)
      else if n = 5 then
        dd_incr ngram_counts (KTuple [n_gram ! 0, n_gram ! 1, n_gram ! 2, n_gram ! 3])
          (n_gram ! 4)
      else ngram_counts)"

definition get_ngram_counts :: "string list \<Rightarrow> int \<Rightarrow> table" where
  "get_ngram_counts words n =
     foldl (\<lambda>ngram_counts w.
              let word = convert_word (chars_of w) n
              in if n \<le> int (length word)
                 then foldl (record_n_gram n) ngram_counts (n_grams word n)
                 else ngram_counts)
       [] words"

text \<open>
  The global \<open>ngram_counts\<close> dictionary: entry 1 is the unigram \<open>Counter\<close>, entries 2 to 5
  are the tables of \<open>get_ngram_counts\<close>.
\<close>

record count_tables =
  unigram_counts :: counter
  higher_counts :: "nat \<Rightarrow> table"

definition train :: "string list \<Rightarrow> count_tables" where
  "train train_set =
     \<lparr>unigram_counts = get_unigram_counts train_set,
      higher_counts = (\<lambda>k. get_ngram_counts train_set (int k))\<rparr>"


section \<open>The interpolation engine: \<open>get_ngram_prob\<close>\<close>

text \<open>
  \<open>get_ngram_prob\<close> mutates the weight dictionary it is given and, through the
  \<open>defaultdict\<close> reads, the global tables.  Both are threaded through a state record;
  the state is returned also when the function raises.  The arithmetic is that of the
  reals: rounding is not modelled.  The theorems for C2 and C5 state the range of floating
  point as a hypothesis, since there the kind of the result depends on it (a product that
  underflows to 0.0, an integer too large for a float).
\<close>

record istate =
  prob :: real
  lambdas :: weights
  tables :: count_tables

definition conditional_of :: "string list \<Rightarrow> pykey" where
  "conditional_of context =
     (if length context > 1 then KTuple context
      else if length context = 1 then KStr (context ! 0)
      else KTuple [])"

definition set_table :: "nat \<Rightarrow> table \<Rightarrow> count_tables \<Rightarrow> count_tables" where
  "set_table k T C = C\<lparr>higher_counts := (higher_counts C)(k := T)\<rparr>"

definition order_block :: "nat \<Rightarrow> pykey \<Rightarrow> string \<Rightarrow> istate \<Rightarrow> error option \<times> istate" where
  \<comment> \<open>The body of \<open>if (n > k - 1):\<close> for the table of order \<open>k\<close>, 2 to 5.  The second
      read of \<open>ngram_counts[k][conditional]\<close> finds the entry of the first.\<close>
  "order_block k conditional letter s =
     (case dd_get (higher_counts (tables s) k) conditional of (c, T) \<Rightarrow>
        (let s1 = s\<lparr>tables := set_table k T (tables s)\<rparr> in
          (case lambdas s k of
             None \<Rightarrow> (Some KeyError, s1)
           | Some wk \<Rightarrow>
               (let kgram_count = real (counter_get c letter) * wk;
                    kgram_total_count = real (counter_total c)
                in if kgram_total_count \<noteq> 0
                   then (None, s1\<lparr>prob := prob s + kgram_count / kgram_total_count\<rparr>)
                   else (case lambdas s (k - 1) of
                           None \<Rightarrow> (Some KeyError, s1)
                         | Some wk1 \<Rightarrow>
                             (None, s1\<lparr>lambdas := (lambdas s)(k - 1 \<mapsto> wk1 + wk),
                                        prob := prob s + 0\<rparr>))))))"

definition unigram_block :: "string \<Rightarrow> istate \<Rightarrow> error option \<times> istate" where
  \<comment> \<open>The body of \<open>if (n > 0):\<close>.  In the \<open>else\<close> branch \<open>len\<close> is applied to a float,
      which raises \<open>TypeError\<close>.\<close>
  "unigram_block letter s =
     (case lambdas s 1 of
        None \<Rightarrow> (Some KeyError, s)
      | Some w1 \<Rightarrow>
          (let unigram_count = real (counter_get (unigram_counts (tables s)) letter) * w1;
               unigram_total_count = real (counter_total (unigram_counts (tables s)))
           in if unigram_total_count \<noteq> 0
              then (None, s\<lparr>prob := prob s + unigram_count / unigram_total_count\<rparr>)
              else (case lambdas s 0 of
                      None \<Rightarrow> (Some KeyError, s)
                    | Some w0 \<Rightarrow>
                        (Some TypeError, s\<lparr>lambdas := (lambdas s)(0 \<mapsto> w0 + w1)\<rparr>))))"

definition skip :: "istate \<Rightarrow> error option \<times> istate" where
  "skip s = (None, s)"

definition and_then ::
  "(istate \<Rightarrow> error option \<times> istate) \<Rightarrow> (istate \<Rightarrow> error option \<times> istate)
     \<Rightarrow> istate \<Rightarrow> error option \<times> istate" where
  "and_then f g s = (case f s of (None, s') \<Rightarrow> g s' | (Some e, s') \<Rightarrow> (Some e, s'))"

definition higher_orders :: "string \<Rightarrow> pykey \<Rightarrow> int \<Rightarrow> istate \<Rightarrow> error option \<times> istate" where
  \<comment> \<open>The blocks \<open>if (n>4)\<close>, \<open>if (n>3)\<close>, \<open>if (n>2)\<close>, \<open>if (n>1)\<close>, in this order.\<close>
  "higher_orders letter conditional n =
     and_then (if n > 4 then order_block 5 conditional letter else skip)
    (and_then (if n > 3 then order_block 4 conditional letter else skip)
    (and_then (if n > 2 then order_block 3 conditional letter else skip)
              (if n > 1 then order_block 2 conditional letter else skip)))"

definition get_ngram_prob_acc ::
  "string \<Rightarrow> string list \<Rightarrow> int \<Rightarrow> weights \<Rightarrow> count_tables \<Rightarrow> error option \<times> istate" where
  \<comment> \<open>\<open>get_ngram_prob\<close> up to, not including, \<open>return math.log(prob)\<close>.\<close>
  "get_ngram_prob_acc letter context n lam C =
     and_then (higher_orders letter (conditional_of context) n)
              (if n > 0 then unigram_block letter else skip)
       \<lparr>prob = 0, lambdas = lam, tables = C\<rparr>"

definition get_ngram_prob ::
  "string \<Rightarrow> string list \<Rightarrow> int \<Rightarrow> weights \<Rightarrow> count_tables \<Rightarrow> (error + real) \<times> istate" where
  \<comment> \<open>\<open>math.log\<close> raises \<open>ValueError\<close> unless its argument is positive.\<close>
  "get_ngram_prob letter context n lam C =
     (case get_ngram_prob_acc letter context n lam C of
        (Some e, s) \<Rightarrow> (Inl e, s)
      | (None, s) \<Rightarrow> if prob s > 0 then (Inr (ln (prob s)), s) else (Inl ValueError, s))"


section \<open>The guess selector: \<open>ngram_guesser\<close>\<close>

text \<open>
  The selector passes \<open>lambdas.copy()\<close> to \<open>get_ngram_prob\<close>, which writes to the object
  it receives.  Whether the caller's dictionary is touched depends on which object that
  is, so dictionaries of weights live in a store, addressed by position.
\<close>

record world =
  ngram_counts :: count_tables
  heap :: "weights list"

definition alloc :: "weights \<Rightarrow> world \<Rightarrow> nat \<times> world" where
  "alloc d w = (length (heap w), w\<lparr>heap := heap w @ [d]\<rparr>)"

definition dict_copy :: "nat \<Rightarrow> world \<Rightarrow> nat \<times> world" where
  \<comment> \<open>\<open>lambdas.copy()\<close>: a new object with the same entries.\<close>
  "dict_copy a w = alloc (heap w ! a) w"

definition call_get_ngram_prob ::
  "string \<Rightarrow> string list \<Rightarrow> int \<Rightarrow> nat \<Rightarrow> world \<Rightarrow> (error + real) \<times> world" where
  \<comment> \<open>\<open>get_ngram_prob\<close> called on the dictionary object at address \<open>a\<close>.\<close>
  "call_get_ngram_prob letter context n a w =
     (case get_ngram_prob letter context n (heap w ! a) (ngram_counts w) of
        (r, s) \<Rightarrow> (r, w\<lparr>ngram_counts := tables s, heap := (heap w)[a := lambdas s]\<rparr>))"

definition ascii_lowercase :: "string list" where
  "ascii_lowercase = chars_of ''abcdefghijklmnopqrstuvwxyz''"

function context_loop ::
  "string list \<Rightarrow> int \<Rightarrow> int \<Rightarrow> int \<Rightarrow> string list \<Rightarrow> error + string list" where
  \<comment> \<open>\<open>while word[j]!="_" and j>=0 and context_len<n: context.insert(0,word[j]); ...\<close>\<close>
  "context_loop word n j context_len context =
     (case py_index word j of
        Inl e \<Rightarrow> Inl e
      | Inr wj \<Rightarrow>
          if wj \<noteq> ''_'' \<and> j \<ge> 0 \<and> context_len < n
          then context_loop word n (j - 1) (context_len + 1) (wj # context)
          else Inr context)"
  by pat_completeness auto
termination
  by (relation "measure (\<lambda>(word, n, j, context_len, context). nat (j + 1))") auto

declare context_loop.simps [simp del]

definition add_prob :: "(string \<times> real) list \<Rightarrow> string \<Rightarrow> real \<Rightarrow> (string \<times> real) list" where
  \<comment> \<open>\<open>letter_probs[letter] += probability\<close> on a \<open>defaultdict(float)\<close>\<close>
  "add_prob letter_probs letter probability =
     AList.update letter
       ((case map_of letter_probs letter of Some v \<Rightarrow> v | None \<Rightarrow> 0) + probability) letter_probs"

fun max_key :: "(string \<times> real) list \<Rightarrow> error + string" where
  \<comment> \<open>\<open>max(letter_probs, key=letter_probs.get)\<close>: the first key of maximal value;
      \<open>max\<close> of an empty dictionary raises \<open>ValueError\<close>.\<close>
  "max_key [] = Inl ValueError"
| "max_key ((k, v) # kvs) =
     Inr (fst (foldl (\<lambda>(bk, bv) (k', v'). if v' > bv then (k', v') else (bk, bv)) (k, v) kvs))"

fun letters_loop ::
  "string list \<Rightarrow> string list \<Rightarrow> int \<Rightarrow> nat \<Rightarrow> (string \<times> real) list \<times> world
     \<Rightarrow> error option \<times> (string \<times> real) list \<times> world" where
  \<comment> \<open>\<open>for letter in letter_available:\<close>\<close>
  "letters_loop [] context n la (letter_probs, w) = (None, letter_probs, w)"
| "letters_loop (letter # rest) context n la (letter_probs, w) =
     (case dict_copy la w of (a, w1) \<Rightarrow>
        (case call_get_ngram_prob letter context n a w1 of
           (Inl e, w2) \<Rightarrow> (Some e, letter_probs, w2)
         | (Inr probability, w2) \<Rightarrow>
             letters_loop rest context n la (add_prob letter_probs letter probability, w2)))"

fun blanks_loop ::
  "nat list \<Rightarrow> string list \<Rightarrow> string list \<Rightarrow> int \<Rightarrow> nat \<Rightarrow> (string \<times> real) list \<times> world
     \<Rightarrow> error option \<times> (string \<times> real) list \<times> world" where
  \<comment> \<open>\<open>for i in range(len(word)):\<close>\<close>
  "blanks_loop [] word letter_available n la (letter_probs, w) = (None, letter_probs, w)"
| "blanks_loop (i # rest) word letter_available n la (letter_probs, w) =
     (if word ! i = ''_'' then
        (case context_loop word n (int i - 1) 1 [] of
           Inl e \<Rightarrow> (Some e, letter_probs, w)
         | Inr context \<Rightarrow>
             (case letters_loop letter_available context n la (letter_probs, w) of
                (Some e, letter_probs', w') \<Rightarrow> (Some e, letter_probs', w')
              | (None, letter_probs', w') \<Rightarrow>
                  blanks_loop rest word letter_available n la (letter_probs', w')))
      else blanks_loop rest word letter_available n la (letter_probs, w))"

definition ngram_guesser ::
  "pymask \<Rightarrow> string set \<Rightarrow> int option \<Rightarrow> nat option \<Rightarrow> world \<Rightarrow> (error + string) \<times> world" where
  \<comment> \<open>The keyword arguments \<open>n\<close> and \<open>lambdas\<close> are optional; \<open>lambdas\<close> is the address of the
      caller's dictionary.  \<open>if kwargs.get(...)\<close> is false for a missing argument, for
      \<open>n = 0\<close> and for an empty dictionary.\<close>
  "ngram_guesser msk guessed kw_n kw_lambdas w =
     (let letter_available = filter (\<lambda>letter. letter \<notin> guessed) ascii_lowercase;
          n = (case kw_n of Some v \<Rightarrow> if v \<noteq> 0 then v else 1 | None \<Rightarrow> 1);
          (la, w0) = (case kw_lambdas of
                        Some a \<Rightarrow> if heap w ! a \<noteq> Map.empty then (a, w) else alloc [1 \<mapsto> 1] w
                      | None \<Rightarrow> alloc [1 \<mapsto> 1] w);
          word = convert_word msk 2
      in (case blanks_loop [0..<length word] word letter_available n la ([], w0) of
            (Some e, letter_probs, w') \<Rightarrow> (Inl e, w')
          | (None, letter_probs, w') \<Rightarrow> (max_key letter_probs, w')))"


section \<open>Vocabulary for the properties\<close>

text \<open>
  Reading the tables without touching them: the \<open>Counter\<close> stored under a key (empty when
  the key is absent), a count and a total.
\<close>

definition tab_lookup :: "table \<Rightarrow> pykey \<Rightarrow> counter" where
  "tab_lookup T key = (case map_of T key of Some c \<Rightarrow> c | None \<Rightarrow> [])"

definition tab_count :: "count_tables \<Rightarrow> nat \<Rightarrow> pykey \<Rightarrow> string \<Rightarrow> nat" where
  "tab_count C k key letter = counter_get (tab_lookup (higher_counts C k) key) letter"

definition tab_total :: "count_tables \<Rightarrow> nat \<Rightarrow> pykey \<Rightarrow> nat" where
  "tab_total C k key = counter_total (tab_lookup (higher_counts C k) key)"

text \<open>
  The cascade as the specification words it, for orders \<open>k\<close> down to 2: when the total
  count of the context in the order-\<open>k\<close> table is zero, the order adds nothing and its
  weight is added to the weight of order \<open>k - 1\<close>; otherwise
  \<open>weight k * count / total\<close> is added to the accumulated probability.
\<close>

definition spec_cascade_step ::
  "count_tables \<Rightarrow> pykey \<Rightarrow> string \<Rightarrow> nat \<Rightarrow> real \<times> (nat \<Rightarrow> real) \<Rightarrow> real \<times> (nat \<Rightarrow> real)" where
  "spec_cascade_step C ctx letter k = (\<lambda>(p, weight).
     if tab_total C k ctx = 0
     then (p, weight(k - 1 := weight (k - 1) + weight k))
     else (p + weight k * real (tab_count C k ctx letter) / real (tab_total C k ctx), weight))"

fun spec_cascade ::
  "count_tables \<Rightarrow> pykey \<Rightarrow> string \<Rightarrow> nat \<Rightarrow> real \<times> (nat \<Rightarrow> real) \<Rightarrow> real \<times> (nat \<Rightarrow> real)" where
  "spec_cascade C ctx letter k pw =
     (if k < 2 then pw else spec_cascade C ctx letter (k - 1) (spec_cascade_step C ctx letter k pw))"

declare spec_cascade.simps [simp del]

text \<open>
  \<open>same_counts\<close>: two states of the tables answer every count and total alike.
  \<open>corr\<close> relates a state of \<open>get_ngram_prob\<close> to a state of the cascade.
\<close>

definition same_counts :: "count_tables \<Rightarrow> count_tables \<Rightarrow> bool" where
  "same_counts C C' \<longleftrightarrow>
     unigram_counts C' = unigram_counts C \<and>
     (\<forall>k key. tab_lookup (higher_counts C' k) key = tab_lookup (higher_counts C k) key)"

definition corr ::
  "nat \<Rightarrow> weights \<Rightarrow> count_tables \<Rightarrow> real \<times> (nat \<Rightarrow> real) \<Rightarrow> istate \<Rightarrow> bool" where
  "corr n lam C = (\<lambda>(p, weight) s.
     prob s = p \<and>
     (\<forall>k. lambdas s k = (if 1 \<le> k \<and> k \<le> n then Some (weight k) else lam k)) \<and>
     same_counts C (tables s))"


text \<open>
  The weight stored under an order, the relative frequency an order multiplies its weight
  with, and the orders that contribute to one computation.
\<close>

definition weight_of :: "weights \<Rightarrow> nat \<Rightarrow> real" where
  "weight_of lam k = (case lam k of Some v \<Rightarrow> v | None \<Rightarrow> 0)"

definition rel_freq :: "count_tables \<Rightarrow> pykey \<Rightarrow> string \<Rightarrow> nat \<Rightarrow> real" where
  "rel_freq C ctx letter k =
     (if k = 1 then real (counter_get (unigram_counts C) letter) / real (counter_total (unigram_counts C))
      else real (tab_count C k ctx letter) / real (tab_total C k ctx))"

definition seen_orders :: "count_tables \<Rightarrow> pykey \<Rightarrow> nat \<Rightarrow> nat list" where
  "seen_orders C ctx n = filter (\<lambda>k. tab_total C k ctx \<noteq> 0) (rev [2..<Suc n])"

definition contributing :: "count_tables \<Rightarrow> pykey \<Rightarrow> nat \<Rightarrow> nat list" where
  "contributing C ctx n = seen_orders C ctx n @ [1]"


definition accounted_weight :: "count_tables \<Rightarrow> pykey \<Rightarrow> nat \<Rightarrow> weights \<Rightarrow> real" where
  \<comment> \<open>The sum of the weights multiplied into the orders that contributed: the orders 2 to
      \<open>n\<close> whose context has a non-zero total, and order 1, the lowest order reached.\<close>
  "accounted_weight C ctx n lam' = sum_list (map (weight_of lam') (contributing C ctx n))"

definition key_ok :: "nat \<Rightarrow> pykey \<Rightarrow> bool" where
  \<comment> \<open>The keys \<open>get_ngram_counts\<close> writes to the table of order \<open>k\<close>.\<close>
  "key_ok k key =
     (case key of KStr x \<Rightarrow> k = 2 | KTuple xs \<Rightarrow> 3 \<le> k \<and> k \<le> 5 \<and> length xs = k - 1)"

definition keys_ok :: "nat \<Rightarrow> table \<Rightarrow> bool" where
  "keys_ok k T \<longleftrightarrow> (\<forall>key \<in> fst ` set T. key_ok k key)"

definition keyed :: "count_tables \<Rightarrow> bool" where
  "keyed C \<longleftrightarrow> (\<forall>k key. tab_total C k key \<noteq> 0 \<longrightarrow> key_ok k key)"

definition table_ext :: "table \<Rightarrow> table \<Rightarrow> bool" where
  \<comment> \<open>\<open>T'\<close> is \<open>T\<close> followed by entries whose \<open>Counter\<close> is empty.\<close>
  "table_ext T T' \<longleftrightarrow> (\<exists>new. T' = T @ new \<and> list_all (\<lambda>e. snd e = []) new)"

definition tables_ext :: "count_tables \<Rightarrow> count_tables \<Rightarrow> bool" where
  "tables_ext C C' \<longleftrightarrow>
     unigram_counts C' = unigram_counts C \<and>
     (\<forall>k. table_ext (higher_counts C k) (higher_counts C' k))"

definition world_grows :: "world \<Rightarrow> world \<Rightarrow> bool" where
  "world_grows w w' \<longleftrightarrow>
     tables_ext (ngram_counts w) (ngram_counts w') \<and> prefix (heap w) (heap w')"

text \<open>Concrete inputs: a small training set and the weights of the notebook's first run.\<close>

definition train_ex :: count_tables where
  "train_ex = train [''cats'', ''cat'', ''bat'']"

definition lam3_ex :: weights where
  "lam3_ex = [0 \<mapsto> 1 / 100, 1 \<mapsto> 1 / 100, 2 \<mapsto> 8 / 100, 3 \<mapsto> 90 / 100]"

definition lam_ex :: weights where
  "lam_ex = [0 \<mapsto> 1 / 100, 1 \<mapsto> 1 / 100, 2 \<mapsto> 98 / 100]"

definition world_ex :: world where
  "world_ex = \<lparr>ngram_counts = train_ex, heap = [lam_ex]\<rparr>"


section \<open>The game terminates and its result is bounded\<close>

lemma str_contains_bounds:
  "str_contains s g \<Longrightarrow> length g \<le> length s \<and> set g \<subseteq> set s"
proof (induction s)
  case Nil
  then show ?case by simp
next
  case (Cons c cs)
  from Cons.prems have "prefix g (c # cs) \<or> str_contains cs g" by simp
  then show ?case
  proof
    assume "prefix g (c # cs)"
    then show ?thesis
      by (metis prefix_length_le set_mono_prefix)
  next
    assume "str_contains cs g"
    with Cons.IH show ?thesis by auto
  qed
qed

lemma finite_substrings: "finite {g. str_contains s g}"
proof -
  have "{g. str_contains s g} \<subseteq> {g. set g \<subseteq> set s \<and> length g \<le> length s}"
    using str_contains_bounds by blast
  moreover have "finite {g. set g \<subseteq> set s \<and> length g \<le> length s}"
    by (rule finite_lists_length_le) simp
  ultimately show ?thesis by (rule finite_subset)
qed

lemma turn_cases:
  assumes "turn secret_word guess (msk, guessed, mistakes) = (msk', guessed', mistakes')"
  shows "(mistakes' = mistakes + 1 \<and> guessed \<subseteq> guessed') \<or>
         (mistakes' = mistakes \<and> guessed' = insert guess guessed \<and> guess \<notin> guessed
            \<and> str_contains secret_word guess)"
  using assms by (auto simp: turn_def split: if_splits)

lemma turn_measure:
  assumes t: "turn secret_word guess (msk, guessed, mistakes) = (msk', guessed', mistakes')"
    and lt: "mistakes < max_mistakes"
  shows "nat (max_mistakes - mistakes') + card ({g. str_contains secret_word g} - guessed')
           < nat (max_mistakes - mistakes) + card ({g. str_contains secret_word g} - guessed)"
    and "mistakes \<le> mistakes'" and "mistakes' \<le> max_mistakes"
proof -
  let ?S = "{g. str_contains secret_word g}"
  have fin: "finite (?S - guessed)" using finite_substrings by simp
  from turn_cases [OF t] show "nat (max_mistakes - mistakes') + card (?S - guessed')
           < nat (max_mistakes - mistakes) + card (?S - guessed)"
  proof
    assume a: "mistakes' = mistakes + 1 \<and> guessed \<subseteq> guessed'"
    then have "?S - guessed' \<subseteq> ?S - guessed" by blast
    then have "card (?S - guessed') \<le> card (?S - guessed)" using fin by (rule card_mono [rotated])
    moreover have "nat (max_mistakes - mistakes') < nat (max_mistakes - mistakes)" using a lt by simp
    ultimately show ?thesis by linarith
  next
    assume a: "mistakes' = mistakes \<and> guessed' = insert guess guessed \<and> guess \<notin> guessed
            \<and> str_contains secret_word guess"
    then have "?S - guessed' = (?S - guessed) - {guess}" and "guess \<in> ?S - guessed" by auto
    then have "card (?S - guessed') < card (?S - guessed)"
      using fin by (metis card_Diff1_less)
    then show ?thesis using a by simp
  qed
  from turn_cases [OF t] lt show "mistakes \<le> mistakes'" and "mistakes' \<le> max_mistakes" by auto
qed

lemma hangman_loop_not_str:
  assumes "mistakes < max_mistakes" and "guesser gs msk guessed = Inr (v, gs')" and "\<not> is_str v"
  shows "hangman_loop secret_word guesser max_mistakes gs (msk, guessed, mistakes)
           = Some (Inl TypeError)"
  using assms by (subst hangman_loop.simps) simp

lemma hangman_loop_total:
  "\<exists>r. hangman_loop secret_word guesser max_mistakes gs (msk, guessed, mistakes) = Some r \<and>
       (\<forall>m. r = Inr m \<longrightarrow> mistakes \<le> m \<and> m \<le> max max_mistakes mistakes) \<and>
       (\<forall>e. r = Inl e \<longrightarrow>
          (\<exists>gs' msk' guessed'. guesser gs' msk' guessed' = Inl e) \<or>
          (e = TypeError \<and>
           (\<exists>gs' msk' guessed' v gs''. guesser gs' msk' guessed' = Inr (v, gs'') \<and> \<not> is_str v)))"
proof (induction "nat (max_mistakes - mistakes) + card ({g. str_contains secret_word g} - guessed)"
        arbitrary: gs msk guessed mistakes rule: less_induct)
  case less
  show ?case
  proof (cases "mistakes < max_mistakes")
    case False
    then show ?thesis by (subst hangman_loop.simps) simp
  next
    case True
    show ?thesis
    proof (cases "guesser gs msk guessed")
      case (Inl e)
      then show ?thesis using True by (subst hangman_loop.simps) auto
    next
      case (Inr p)
      obtain v gs' where p: "p = (v, gs')" by (cases p)
      show ?thesis
      proof (cases "is_str v")
        case False
        with Inr p hangman_loop_not_str [OF True, of guesser gs msk guessed v gs' secret_word]
        have e: "hangman_loop secret_word guesser max_mistakes gs (msk, guessed, mistakes)
                   = Some (Inl TypeError)" by simp
        from Inr p False
        have w: "\<exists>gs' msk' guessed' v gs''. guesser gs' msk' guessed' = Inr (v, gs'') \<and> \<not> is_str v"
          by blast
        show ?thesis unfolding e using w by simp
      next
        case str: True
        define guess where "guess = str_val v"
        obtain msk' guessed' mistakes' where
          t: "turn secret_word guess (msk, guessed, mistakes) = (msk', guessed', mistakes')"
          by (cases "turn secret_word guess (msk, guessed, mistakes)")
        note m = turn_measure [OF t True]
        show ?thesis
        proof (cases "''_'' \<notin> set msk'")
          case True
          then show ?thesis using \<open>mistakes < max_mistakes\<close> Inr p t m str
            by (subst hangman_loop.simps) (simp add: guess_def)
        next
          case False
          from less.hyps [OF m(1)] obtain r where
            r: "hangman_loop secret_word guesser max_mistakes gs' (msk', guessed', mistakes') = Some r"
              "\<forall>m. r = Inr m \<longrightarrow> mistakes' \<le> m \<and> m \<le> max max_mistakes mistakes'"
              "\<forall>e. r = Inl e \<longrightarrow>
                 (\<exists>gs' msk' guessed'. guesser gs' msk' guessed' = Inl e) \<or>
                 (e = TypeError \<and>
                  (\<exists>gs' msk' guessed' v gs''. guesser gs' msk' guessed' = Inr (v, gs'') \<and> \<not> is_str v))"
            by blast
          have "hangman_loop secret_word guesser max_mistakes gs (msk, guessed, mistakes) = Some r"
            using \<open>mistakes < max_mistakes\<close> Inr p t False r(1) str
            by (subst hangman_loop.simps) (simp add: guess_def)
          then show ?thesis using r(2,3) m(2,3) by auto
        qed
      qed
    qed
  qed
qed

text \<open>
  C8.  For every secret word, every mistake cap and every guess strategy the game loop
  terminates: \<open>hangman\<close> yields a result (a mistake count, or the error the strategy
  raised).  Each turn either adds one to the mistake count, which the loop condition bounds
  by the cap, or leaves it and adds to the guessed set a new element of a finite set, the
  substrings of the secret word.
\<close>

theorem hangman_terminates:
  "(\<exists>r. hangman secret_word guesser gs max_mistakes = Some r) \<and>
   finite {g. str_contains (lower secret_word) g} \<and>
   (\<forall>guess msk guessed mistakes.
      snd (snd (turn (lower secret_word) guess (msk, guessed, mistakes))) = mistakes + 1 \<or>
      (snd (snd (turn (lower secret_word) guess (msk, guessed, mistakes))) = mistakes \<and>
       fst (snd (turn (lower secret_word) guess (msk, guessed, mistakes))) = insert guess guessed \<and>
       guess \<in> {g. str_contains (lower secret_word) g} - guessed))"
proof -
  let ?s = "lower secret_word"
  obtain r where
    "hangman_loop ?s guesser max_mistakes gs (replicate (length ?s) ''_'', {}, 0) = Some r"
    using hangman_loop_total [of ?s guesser max_mistakes gs "replicate (length ?s) ''_''" "{}" 0]
    by blast
  then have "\<exists>r. hangman secret_word guesser gs max_mistakes = Some r"
    by (simp add: hangman_def)
  moreover have "\<forall>guess msk guessed mistakes.
      snd (snd (turn ?s guess (msk, guessed, mistakes))) = mistakes + 1 \<or>
      (snd (snd (turn ?s guess (msk, guessed, mistakes))) = mistakes \<and>
       fst (snd (turn ?s guess (msk, guessed, mistakes))) = insert guess guessed \<and>
       guess \<in> {g. str_contains ?s g} - guessed)"
    by (simp add: turn_def)
  ultimately show ?thesis using finite_substrings [of ?s] by blast
qed

text \<open>
  C7.  For every secret word, every guess strategy and every cap \<open>max_mistakes \<ge> 1\<close>, the
  mistake count \<open>m\<close> that \<open>hangman\<close> returns satisfies \<open>0 \<le> m \<le> max_mistakes\<close>.
\<close>

theorem hangman_mistakes_in_range:
  assumes "1 \<le> max_mistakes"
    and "hangman secret_word guesser gs max_mistakes = Some (Inr m)"
  shows "0 \<le> m \<and> m \<le> max_mistakes"
proof -
  let ?s = "lower secret_word"
  obtain r where
    r: "hangman_loop ?s guesser max_mistakes gs (replicate (length ?s) ''_'', {}, 0) = Some r"
    and b: "\<forall>m. r = Inr m \<longrightarrow> 0 \<le> m \<and> m \<le> max max_mistakes 0"
    using hangman_loop_total [of ?s guesser max_mistakes gs "replicate (length ?s) ''_''" "{}" 0]
    by blast
  from r assms(2) have "r = Inr m" by (simp add: hangman_def)
  with b assms(1) show ?thesis by simp
qed

theorem hangman_mistakes_in_range_witness:
  "(1::int) \<le> 1 \<and> hangman ''cat'' (always (PStr ''z'')) () 1 = Some (Inr 1)
     \<and> (0::int) \<le> 1 \<and> (1::int) \<le> 1"
proof -
  have h: "hangman ''cat'' (always (PStr ''z'')) () 1 = Some (Inr 1)"
    by (simp add: hangman_def hangman_loop.simps always_def turn_def lower_def lower_char_def)
  have one: "(1::int) \<le> 1" by simp
  from hangman_mistakes_in_range [OF one h] h show ?thesis by simp
qed





section \<open>The interpolation engine follows the cascade\<close>

lemma dd_get_lookup: "fst (dd_get T key) = tab_lookup T key"
  by (simp add: dd_get_def tab_lookup_def split: option.splits)

lemma dd_get_table_lookup: "tab_lookup (snd (dd_get T key)) key' = tab_lookup T key'"
  by (auto simp: dd_get_def tab_lookup_def map_of_append split: option.splits if_splits)

lemma same_counts_refl: "same_counts C C"
  by (simp add: same_counts_def)

lemma same_counts_set_table:
  assumes "same_counts C C'"
  shows "same_counts C (set_table k (snd (dd_get (higher_counts C' k) key)) C')"
  using assms by (simp add: same_counts_def set_table_def dd_get_table_lookup)

lemma same_counts_total: "same_counts C C' \<Longrightarrow> tab_total C' k key = tab_total C k key"
  by (simp add: same_counts_def tab_total_def)

lemma same_counts_count: "same_counts C C' \<Longrightarrow> tab_count C' k key l = tab_count C k key l"
  by (simp add: same_counts_def tab_count_def)

lemma order_block_corr:
  assumes c: "corr n lam C pw s" and k: "2 \<le> k" "k \<le> n"
  shows "\<exists>s'. order_block k ctx letter s = (None, s') \<and> corr n lam C (spec_cascade_step C ctx letter k pw) s'"
proof -
  obtain p weight where pw: "pw = (p, weight)" by (cases pw)
  from c pw have ps: "prob s = p"
    and ls: "\<And>j. lambdas s j = (if 1 \<le> j \<and> j \<le> n then Some (weight j) else lam j)"
    and sc: "same_counts C (tables s)"
    by (auto simp: corr_def)
  from ls k have lk: "lambdas s k = Some (weight k)" and lk1: "lambdas s (k - 1) = Some (weight (k - 1))"
    by auto
  obtain c' T where dg: "dd_get (higher_counts (tables s) k) ctx = (c', T)"
    by (cases "dd_get (higher_counts (tables s) k) ctx")
  have c': "c' = tab_lookup (higher_counts (tables s) k) ctx"
    using dd_get_lookup [of "higher_counts (tables s) k" ctx] dg by simp
  have tot: "counter_total c' = tab_total C k ctx"
    using c' same_counts_total [OF sc] by (simp add: tab_total_def)
  have cnt: "counter_get c' letter = tab_count C k ctx letter"
    using c' same_counts_count [OF sc] by (simp add: tab_count_def)
  have sc': "same_counts C (set_table k T (tables s))"
    using same_counts_set_table [OF sc, of k ctx] dg by simp
  show ?thesis
  proof (cases "tab_total C k ctx = 0")
    case True
    then show ?thesis using dg lk lk1 tot cnt sc' ps ls pw k
      by (auto simp: order_block_def corr_def spec_cascade_step_def)
  next
    case False
    then show ?thesis using dg lk lk1 tot cnt sc' ps ls pw k
      by (auto simp: order_block_def corr_def spec_cascade_step_def)
  qed
qed

lemma guarded_block_corr:
  assumes c: "corr n lam C pw s" and k: "2 \<le> k"
  shows "\<exists>s'. (if int n > int k - 1 then order_block k ctx letter else skip) s = (None, s') \<and>
              corr n lam C (if k \<le> n then spec_cascade_step C ctx letter k pw else pw) s'"
proof (cases "k \<le> n")
  case True
  with order_block_corr [OF c k True] show ?thesis by auto
next
  case False
  with c show ?thesis by (auto simp: skip_def)
qed

lemma cascade_unroll:
  assumes "n \<le> 5"
  shows "spec_cascade C ctx letter n pw =
     (let g = (\<lambda>k x. if k \<le> n then spec_cascade_step C ctx letter k x else x)
      in g 2 (g 3 (g 4 (g 5 pw))))"
proof -
  from assms have "n = 0 \<or> n = 1 \<or> n = 2 \<or> n = 3 \<or> n = 4 \<or> n = 5" by arith
  then show ?thesis
    by (elim disjE) (simp_all add: spec_cascade.simps)
qed

lemma and_then_ok: "f s = (None, s') \<Longrightarrow> and_then f g s = g s'"
  by (simp add: and_then_def)

lemma higher_orders_cascade:
  assumes n: "n \<le> 5" and c: "corr n lam C pw s"
  shows "\<exists>s'. higher_orders letter ctx (int n) s = (None, s') \<and>
              corr n lam C (spec_cascade C ctx letter n pw) s'"
proof -
  let ?g = "\<lambda>k x. if k \<le> n then spec_cascade_step C ctx letter k x else x"
  let ?b = "\<lambda>k. if int n > int k - 1 then order_block k ctx letter else skip"
  from guarded_block_corr [OF c, of 5 ctx letter] obtain s5 where
    s5: "?b 5 s = (None, s5)" "corr n lam C (?g 5 pw) s5" by auto
  from guarded_block_corr [OF s5(2), of 4 ctx letter] obtain s4 where
    s4: "?b 4 s5 = (None, s4)" "corr n lam C (?g 4 (?g 5 pw)) s4" by auto
  from guarded_block_corr [OF s4(2), of 3 ctx letter] obtain s3 where
    s3: "?b 3 s4 = (None, s3)" "corr n lam C (?g 3 (?g 4 (?g 5 pw))) s3" by auto
  from guarded_block_corr [OF s3(2), of 2 ctx letter] obtain s2 where
    s2: "?b 2 s3 = (None, s2)" "corr n lam C (?g 2 (?g 3 (?g 4 (?g 5 pw)))) s2" by auto
  have "higher_orders letter ctx (int n) s = ?b 2 s3"
    unfolding higher_orders_def
    using and_then_ok [of "?b 5" s s5, OF s5(1)] and_then_ok [of "?b 4" s5 s4, OF s4(1)]
      and_then_ok [of "?b 3" s4 s3, OF s3(1)]
    by simp
  moreover have "spec_cascade C ctx letter n pw = ?g 2 (?g 3 (?g 4 (?g 5 pw)))"
    using cascade_unroll [OF n, of C ctx letter pw] by (simp add: Let_def)
  ultimately show ?thesis using s2 by simp
qed

lemma seen_orders_Suc:
  "1 \<le> k \<Longrightarrow> seen_orders C ctx (Suc k) =
     (if tab_total C (Suc k) ctx \<noteq> 0 then [Suc k] else []) @ seen_orders C ctx k"
  by (simp add: seen_orders_def)

lemma seen_orders_le: "j \<in> set (seen_orders C ctx k) \<Longrightarrow> 2 \<le> j \<and> j \<le> k"
  by (auto simp: seen_orders_def)

lemma cascade_Suc:
  "1 \<le> k \<Longrightarrow> spec_cascade C ctx letter (Suc k) pw = spec_cascade C ctx letter k (spec_cascade_step C ctx letter (Suc k) pw)"
  by (subst spec_cascade.simps) simp

lemma cascade_one: "spec_cascade C ctx letter (Suc 0) pw = pw"
  by (subst spec_cascade.simps) simp

lemma cascade_frame:
  "1 \<le> k \<Longrightarrow> k < j \<Longrightarrow> snd (spec_cascade C ctx letter k (p, w)) j = w j"
proof (induction k arbitrary: p w rule: nat_induct_at_least)
  case base
  then show ?case by (simp add: cascade_one)
next
  case (Suc k)
  then show ?case
    by (auto simp: cascade_Suc spec_cascade_step_def)
qed

lemma sum_upd_last:
  fixes w :: "nat \<Rightarrow> real"
  assumes "1 \<le> k"
  shows "(\<Sum>j = 1..k. (w(k := a)) j) = (\<Sum>j = 1..k. w j) - w k + a"
proof -
  have "{1..k} = insert k {1..<k}" using assms by auto
  then show ?thesis by simp
qed

lemma cascade_account:
  assumes "1 \<le> k"
  shows "sum_list (map (snd (spec_cascade C ctx letter k (p, w))) (seen_orders C ctx k))
           + snd (spec_cascade C ctx letter k (p, w)) 1 = (\<Sum>j = 1..k. w j)
       \<and> fst (spec_cascade C ctx letter k (p, w)) =
           p + sum_list (map (\<lambda>j. snd (spec_cascade C ctx letter k (p, w)) j * rel_freq C ctx letter j)
                 (seen_orders C ctx k))"
  using assms
proof (induction k arbitrary: p w rule: nat_induct_at_least)
  case base
  then show ?case by (simp add: cascade_one seen_orders_def)
next
  case (Suc k)
  show ?case
  proof (cases "tab_total C (Suc k) ctx = 0")
    case True
    define w2 where "w2 = w(k := w k + w (Suc k))"
    have st: "spec_cascade C ctx letter (Suc k) (p, w) = spec_cascade C ctx letter k (p, w2)"
      using Suc.hyps True by (simp add: cascade_Suc spec_cascade_step_def w2_def)
    have so: "seen_orders C ctx (Suc k) = seen_orders C ctx k"
      using Suc.hyps True by (simp add: seen_orders_Suc)
    have "(\<Sum>j = 1..k. w2 j) = (\<Sum>j = 1..Suc k. w j)"
      using sum_upd_last [OF Suc.hyps, of w "w k + w (Suc k)"] by (simp add: w2_def)
    with Suc.IH [of p w2] show ?thesis unfolding st so by simp
  next
    case False
    let ?p = "p + w (Suc k) * real (tab_count C (Suc k) ctx letter) / real (tab_total C (Suc k) ctx)"
    have st: "spec_cascade C ctx letter (Suc k) (p, w) = spec_cascade C ctx letter k (?p, w)"
      using Suc.hyps False by (simp add: cascade_Suc spec_cascade_step_def)
    have so: "seen_orders C ctx (Suc k) = Suc k # seen_orders C ctx k"
      using Suc.hyps False by (simp add: seen_orders_Suc)
    have fr: "snd (spec_cascade C ctx letter k (?p, w)) (Suc k) = w (Suc k)"
      using cascade_frame [OF Suc.hyps, of "Suc k"] by simp
    have rf: "rel_freq C ctx letter (Suc k) = real (tab_count C (Suc k) ctx letter) / real (tab_total C (Suc k) ctx)"
      using Suc.hyps by (simp add: rel_freq_def)
    from Suc.IH [of ?p w] st so fr rf show ?thesis by simp
  qed
qed

lemma cascade_nonneg:
  assumes "1 \<le> k"
  shows "0 \<le> p \<Longrightarrow> (\<forall>j. 1 \<le> j \<and> j \<le> k \<longrightarrow> 0 \<le> w j) \<Longrightarrow>
         0 \<le> fst (spec_cascade C ctx letter k (p, w)) \<and> w 1 \<le> snd (spec_cascade C ctx letter k (p, w)) 1"
  using assms
proof (induction k arbitrary: p w rule: nat_induct_at_least)
  case base
  then show ?case by (simp add: cascade_one)
next
  case (Suc k)
  show ?case
  proof (cases "tab_total C (Suc k) ctx = 0")
    case True
    define w2 where "w2 = w(k := w k + w (Suc k))"
    have st: "spec_cascade C ctx letter (Suc k) (p, w) = spec_cascade C ctx letter k (p, w2)"
      using Suc.hyps True by (simp add: cascade_Suc spec_cascade_step_def w2_def)
    have nn: "\<forall>j. 1 \<le> j \<and> j \<le> k \<longrightarrow> 0 \<le> w2 j" using Suc.prems Suc.hyps by (auto simp: w2_def)
    have "w 1 \<le> w2 1" using Suc.prems Suc.hyps by (auto simp: w2_def)
    with Suc.IH [OF Suc.prems(1) nn] show ?thesis unfolding st by linarith
  next
    case False
    let ?p = "p + w (Suc k) * real (tab_count C (Suc k) ctx letter) / real (tab_total C (Suc k) ctx)"
    have st: "spec_cascade C ctx letter (Suc k) (p, w) = spec_cascade C ctx letter k (?p, w)"
      using Suc.hyps False by (simp add: cascade_Suc spec_cascade_step_def)
    have "0 \<le> w (Suc k)" using Suc.prems by auto
    then have p: "0 \<le> ?p" using Suc.prems(1) by simp
    have nn: "\<forall>j. 1 \<le> j \<and> j \<le> k \<longrightarrow> 0 \<le> w j" using Suc.prems by auto
    from Suc.IH [OF p nn] st show ?thesis by simp
  qed
qed

lemma cascade_all_unseen:
  assumes "1 \<le> k"
  shows "(\<forall>j. 2 \<le> j \<and> j \<le> k \<longrightarrow> tab_total C j ctx = 0) \<Longrightarrow>
         fst (spec_cascade C ctx letter k (p, w)) = p \<and>
         snd (spec_cascade C ctx letter k (p, w)) 1 = (\<Sum>j = 1..k. w j)"
  using assms
proof (induction k arbitrary: p w rule: nat_induct_at_least)
  case base
  then show ?case by (simp add: cascade_one)
next
  case (Suc k)
  define w2 where "w2 = w(k := w k + w (Suc k))"
  have z: "tab_total C (Suc k) ctx = 0" using Suc.prems Suc.hyps by auto
  have st: "spec_cascade C ctx letter (Suc k) (p, w) = spec_cascade C ctx letter k (p, w2)"
    using Suc.hyps z by (simp add: cascade_Suc spec_cascade_step_def w2_def)
  have "(\<Sum>j = 1..k. w2 j) = (\<Sum>j = 1..Suc k. w j)"
    using sum_upd_last [OF Suc.hyps, of w "w k + w (Suc k)"] by (simp add: w2_def)
  moreover have "\<forall>j. 2 \<le> j \<and> j \<le> k \<longrightarrow> tab_total C j ctx = 0" using Suc.prems by auto
  ultimately show ?case using Suc.IH [of p w2] unfolding st by simp
qed

lemma corr_init_weight_of:
  assumes "\<forall>k. 1 \<le> k \<and> k \<le> n \<longrightarrow> lam k \<noteq> None"
  shows "corr n lam C (0, weight_of lam) \<lparr>prob = 0, lambdas = lam, tables = C\<rparr>"
  using assms by (auto simp: corr_def same_counts_refl weight_of_def)

lemma acc_cascade:
  assumes n: "1 \<le> n" "n \<le> 5"
    and keys: "\<forall>k. 1 \<le> k \<and> k \<le> n \<longrightarrow> lam k \<noteq> None"
    and tot: "counter_total (unigram_counts C) \<noteq> 0"
  shows "\<exists>s. get_ngram_prob_acc letter context (int n) lam C = (None, s) \<and>
             prob s = fst (spec_cascade C (conditional_of context) letter n (0, weight_of lam))
                    + snd (spec_cascade C (conditional_of context) letter n (0, weight_of lam)) 1
                      * rel_freq C (conditional_of context) letter 1 \<and>
             (\<forall>k. lambdas s k =
                (if 1 \<le> k \<and> k \<le> n
                 then Some (snd (spec_cascade C (conditional_of context) letter n (0, weight_of lam)) k)
                 else lam k)) \<and>
             same_counts C (tables s)"
proof -
  let ?ctx = "conditional_of context"
  let ?s0 = "\<lparr>prob = 0, lambdas = lam, tables = C\<rparr>"
  obtain p' w' where pw: "spec_cascade C ?ctx letter n (0, weight_of lam) = (p', w')"
    by (cases "spec_cascade C ?ctx letter n (0, weight_of lam)")
  from higher_orders_cascade [OF n(2) corr_init_weight_of [OF keys], of letter ?ctx C]
  obtain s' where s': "higher_orders letter ?ctx (int n) ?s0 = (None, s')"
    and c: "corr n lam C (spec_cascade C ?ctx letter n (0, weight_of lam)) s'" by blast
  from c pw have ps: "prob s' = p'"
    and ls: "\<And>k. lambdas s' k = (if 1 \<le> k \<and> k \<le> n then Some (w' k) else lam k)"
    and sc: "same_counts C (tables s')"
    by (auto simp: corr_def)
  from ls n have l1: "lambdas s' 1 = Some (w' 1)" by simp
  from sc have uc: "unigram_counts (tables s') = unigram_counts C" by (simp add: same_counts_def)
  let ?s = "s'\<lparr>prob := p' + w' 1 * rel_freq C ?ctx letter 1\<rparr>"
  have "unigram_block letter s' = (None, ?s)"
    using l1 uc tot ps by (simp add: unigram_block_def rel_freq_def)
  then have "get_ngram_prob_acc letter context (int n) lam C = (None, ?s)"
    using s' n by (simp add: get_ngram_prob_acc_def and_then_def)
  then show ?thesis using pw ls sc by auto
qed

lemma counter_get_le_total: "counter_get c l \<le> counter_total c"
proof (cases "map_of c l")
  case None
  then show ?thesis by (simp add: counter_get_def)
next
  case (Some v)
  then have "(l, v) \<in> set c" by (rule map_of_SomeD)
  then have "v \<in> set (map snd c)" by force
  then have "v \<le> sum_list (map snd c)" by (simp add: member_le_sum_list)
  with Some show ?thesis by (simp add: counter_get_def counter_total_def)
qed



subsection \<open>Concrete tables and weights\<close>

lemmas eval_convert = convert_word_def start_loop.simps end_loop.simps str_def str_nat.simps
  digit_char_def lower_def lower_char_def chars_of_def

lemmas eval_counts = get_ngram_counts_def n_grams_def record_n_gram_def dd_incr_def dd_get_def
  counter_incr_def counter_get_def get_unigram_counts_def eval_convert upt_rec

lemma train_ex_unigram:
  "unigram_counts train_ex = [(''c'', 2), (''a'', 3), (''t'', 3), (''s'', 1), (''b'', 1)]"
  by (simp add: train_ex_def train_def eval_counts)

lemma train_ex_bigram:
  "higher_counts train_ex 2 =
     [(KStr ''<s1>'', [(''c'', 2), (''b'', 1)]), (KStr ''c'', [(''a'', 2)]),
      (KStr ''a'', [(''t'', 3)]), (KStr ''t'', [(''s'', 1), (''</s1>'', 2)]),
      (KStr ''s'', [(''</s1>'', 1)]), (KStr ''b'', [(''a'', 1)])]"
  by (simp add: train_ex_def train_def eval_counts)

lemma lam_ex_values:
  "lam_ex 0 = Some (1 / 100)" "lam_ex 1 = Some (1 / 100)" "lam_ex (Suc 0) = Some (1 / 100)"
  "lam_ex 2 = Some (98 / 100)"
  by (simp_all add: lam_ex_def)


lemma lam_ex_keys: "\<forall>k. 1 \<le> k \<and> k \<le> 2 \<longrightarrow> lam_ex k \<noteq> None"
proof (intro allI impI)
  fix k :: nat
  assume "1 \<le> k \<and> k \<le> 2"
  then have "k = 1 \<or> k = 2" by arith
  moreover have "lam_ex 1 \<noteq> None" and "lam_ex 2 \<noteq> None" by (simp_all add: lam_ex_def)
  ultimately show "lam_ex k \<noteq> None" by blast
qed


lemma sum_split_zero:
  fixes f :: "nat \<Rightarrow> real"
  shows "(\<Sum>k = 0..n. f k) = f 0 + (\<Sum>k = 1..n. f k)"
  by (simp add: sum.atLeast_Suc_atMost)


lemma lam_ex_sum: "(\<Sum>k = 0..2. weight_of lam_ex k) = 1"
proof -
  have "{0..2::nat} = {0, 1, 2}" by auto
  then show ?thesis by (simp add: weight_of_def lam_ex_def)
qed


lemma train_ex_acc:
  "get_ngram_prob_acc ''c'' [''<s1>''] 2 lam_ex train_ex =
     (None, \<lparr>prob = 98 / 100 * 2 / 3 + 1 / 100 * 2 / 10, lambdas = lam_ex,
             tables = set_table 2 (higher_counts train_ex 2) train_ex\<rparr>)"
  by (simp add: get_ngram_prob_acc_def higher_orders_def and_then_def skip_def
        order_block_def unigram_block_def conditional_of_def dd_get_def
        train_ex_unigram train_ex_bigram lam_ex_values counter_get_def
        counter_total_def set_table_def)

lemma train_ex_total: "tab_total train_ex 2 (KStr ''<s1>'') = 3"
  by (simp add: tab_total_def tab_lookup_def train_ex_bigram counter_total_def)



subsection \<open>The keys of the built tables\<close>

lemma foldl_preserves:
  assumes "\<And>a x. P a \<Longrightarrow> P (f a x)" and "P a"
  shows "P (foldl f a xs)"
  using assms(2) by (induction xs arbitrary: a) (simp_all add: assms(1))

lemma dd_incr_keys: "fst ` set (dd_incr T key l) = insert key (fst ` set T)"
  by (auto simp: dd_incr_def dd_get_def dom_update split: option.splits dest: map_of_SomeD
        simp: map_of_eq_None_iff)


lemma dd_incr_keys_ok: "keys_ok k T \<Longrightarrow> key_ok k key \<Longrightarrow> keys_ok k (dd_incr T key l)"
  unfolding keys_ok_def dd_incr_keys by blast

lemma record_n_gram_keys_ok:
  assumes "keys_ok k T"
  shows "keys_ok k (record_n_gram (int k) T g)"
proof -
  have "key_ok 2 (KStr (g ! 0))" "key_ok 3 (KTuple [g ! 0, g ! 1])"
    "key_ok 4 (KTuple [g ! 0, g ! 1, g ! 2])" "key_ok 5 (KTuple [g ! 0, g ! 1, g ! 2, g ! 3])"
    by (simp_all add: key_ok_def)
  then show ?thesis using assms
    by (auto simp: record_n_gram_def intro: dd_incr_keys_ok)
qed

lemma get_ngram_counts_keys_ok: "keys_ok k (get_ngram_counts ws (int k))"
  unfolding get_ngram_counts_def
proof (rule foldl_preserves)
  show "keys_ok k []" by (simp add: keys_ok_def)
next
  fix T w
  assume T: "keys_ok k T"
  have "keys_ok k (foldl (record_n_gram (int k)) T (n_grams (convert_word (chars_of w) (int k)) (int k)))"
    by (rule foldl_preserves) (simp_all add: record_n_gram_keys_ok T)
  with T show "keys_ok k (let word = convert_word (chars_of w) (int k)
                 in if int k \<le> int (length word)
                    then foldl (record_n_gram (int k)) T (n_grams word (int k)) else T)"
    by (simp add: Let_def)
qed

lemma keyed_train: "keyed (train ws)"
  unfolding keyed_def
proof (intro allI impI)
  fix k key
  assume nz: "tab_total (train ws) k key \<noteq> 0"
  then have "tab_lookup (get_ngram_counts ws (int k)) key \<noteq> []"
    by (auto simp: tab_total_def train_def counter_total_def)
  then obtain c where "map_of (get_ngram_counts ws (int k)) key = Some c"
    by (auto simp: tab_lookup_def split: option.splits)
  then have "key \<in> fst ` set (get_ngram_counts ws (int k))"
    by (force dest: map_of_SomeD)
  with get_ngram_counts_keys_ok [of k ws] show "key_ok k key" unfolding keys_ok_def by blast
qed

lemma keyed_same_counts: "same_counts C C' \<Longrightarrow> keyed C \<Longrightarrow> keyed C'"
  by (simp add: keyed_def same_counts_total)

lemma keyed_intermediate_unseen:
  assumes "keyed C" and "2 \<le> length context" and "2 \<le> k" and "k \<le> length context"
  shows "tab_total C k (KTuple context) = 0"
proof (rule ccontr)
  assume "tab_total C k (KTuple context) \<noteq> 0"
  with assms(1) have "key_ok k (KTuple context)" by (simp add: keyed_def)
  then have "3 \<le> k" and "length context = k - 1" by (simp_all add: key_ok_def)
  with assms(4) show False by arith
qed



lemma lam3_ex_keys: "\<forall>k. 1 \<le> k \<and> k \<le> 3 \<longrightarrow> lam3_ex k \<noteq> None"
proof (intro allI impI)
  fix k :: nat
  assume "1 \<le> k \<and> k \<le> 3"
  then have "k = 1 \<or> k = 2 \<or> k = 3" by arith
  moreover have "lam3_ex 1 \<noteq> None" and "lam3_ex 2 \<noteq> None" and "lam3_ex 3 \<noteq> None"
    by (simp_all add: lam3_ex_def)
  ultimately show "lam3_ex k \<noteq> None" by blast
qed


section \<open>Claims about the interpolation engine\<close>

text \<open>
  C1.  Weight cascading.  For an order \<open>n\<close> from 2 to 5 and weights present for the orders
  1 to \<open>n\<close>, the blocks of \<open>get_ngram_prob\<close> for the orders \<open>n\<close> down to 2 compute what
  \<open>spec_cascade\<close> says: for every order \<open>k\<close> from \<open>n\<close> down to 2, if the total count of the
  queried context in the order-\<open>k\<close> table is zero, the order adds nothing to the probability
  and its weight is added to the weight of order \<open>k - 1\<close> before that order is scored;
  otherwise \<open>weight k * count / total\<close> is added to the accumulated probability.
\<close>

theorem weight_cascading:
  assumes "2 \<le> n" and "n \<le> 5"
    and "\<forall>k. 1 \<le> k \<and> k \<le> n \<longrightarrow> lam k \<noteq> None"
  shows "\<exists>s. higher_orders letter ctx (int n) \<lparr>prob = 0, lambdas = lam, tables = C\<rparr> = (None, s) \<and>
             prob s = fst (spec_cascade C ctx letter n (0, weight_of lam)) \<and>
             (\<forall>k. 1 \<le> k \<and> k \<le> n \<longrightarrow>
                  lambdas s k = Some (snd (spec_cascade C ctx letter n (0, weight_of lam)) k))"
proof -
  from higher_orders_cascade [OF assms(2) corr_init_weight_of [OF assms(3)], of letter ctx C]
  obtain s where
    s: "higher_orders letter ctx (int n) \<lparr>prob = 0, lambdas = lam, tables = C\<rparr> = (None, s)"
    and c: "corr n lam C (spec_cascade C ctx letter n (0, weight_of lam)) s" by blast
  obtain p' w' where pw: "spec_cascade C ctx letter n (0, weight_of lam) = (p', w')"
    by (cases "spec_cascade C ctx letter n (0, weight_of lam)")
  from c pw have "prob s = p'" and "\<forall>k. 1 \<le> k \<and> k \<le> n \<longrightarrow> lambdas s k = Some (w' k)"
    by (auto simp: corr_def)
  with s pw show ?thesis by simp
qed


theorem weight_cascading_witness:
  "\<exists>s. higher_orders ''c'' (KStr ''<s1>'') (int 2) \<lparr>prob = 0, lambdas = lam_ex, tables = train_ex\<rparr>
         = (None, s) \<and>
       prob s = fst (spec_cascade train_ex (KStr ''<s1>'') ''c'' 2 (0, weight_of lam_ex)) \<and>
       lambdas s 1 = Some (snd (spec_cascade train_ex (KStr ''<s1>'') ''c'' 2 (0, weight_of lam_ex)) 1) \<and>
       lambdas s 2 = Some (snd (spec_cascade train_ex (KStr ''<s1>'') ''c'' 2 (0, weight_of lam_ex)) 2)"
proof -
  have a: "(2::nat) \<le> 2" and b: "(2::nat) \<le> 5" by simp_all
  from weight_cascading [OF a b lam_ex_keys, of "''c''" "KStr ''<s1>''" train_ex]
  obtain s where
    "higher_orders ''c'' (KStr ''<s1>'') (int 2) \<lparr>prob = 0, lambdas = lam_ex, tables = train_ex\<rparr>
       = (None, s)"
    "prob s = fst (spec_cascade train_ex (KStr ''<s1>'') ''c'' 2 (0, weight_of lam_ex))"
    "\<forall>k. 1 \<le> k \<and> k \<le> 2 \<longrightarrow>
       lambdas s k = Some (snd (spec_cascade train_ex (KStr ''<s1>'') ''c'' 2 (0, weight_of lam_ex)) k)"
    by blast
  then show ?thesis by auto
qed

text \<open>
  C2, as the claim states it, fails.  The order-0 weight is only read when the unigram table
  is empty, so it is no floor: with the training set \<open>cats, cat, bat\<close>, order 2, the
  weights 0.01, 0.01, 0.98 (a positive order-0 weight, sum 1), the word-start context and
  the candidate letter \<open>z\<close>, which the training set does not contain, the accumulated
  probability is 0 and the logarithm raises \<open>ValueError\<close>.
\<close>

theorem log_of_zero_for_unseen_letter:
  "weight_of lam_ex 0 + weight_of lam_ex 1 + weight_of lam_ex 2 = 1 \<and> 0 < weight_of lam_ex 0 \<and>
   fst (get_ngram_prob_acc ''z'' [''<s1>''] 2 lam_ex train_ex) = None \<and>
   prob (snd (get_ngram_prob_acc ''z'' [''<s1>''] 2 lam_ex train_ex)) = 0 \<and>
   fst (get_ngram_prob ''z'' [''<s1>''] 2 lam_ex train_ex) = Inl ValueError"
  by (simp add: get_ngram_prob_def get_ngram_prob_acc_def higher_orders_def and_then_def skip_def
        order_block_def unigram_block_def conditional_of_def dd_get_def set_table_def
        train_ex_unigram train_ex_bigram lam_ex_values weight_of_def counter_get_def
        counter_total_def)

text \<open>
  C2, amended.  For an order \<open>n\<close> from 1 to 5, weights for the orders 1 to \<open>n\<close> that lie
  between 0 and 1, and a candidate letter that occurs in the training set (its unigram
  count is positive), the accumulated probability is strictly positive and
  \<open>get_ngram_prob\<close> returns its logarithm, provided the numbers stay in the range of
  floating point: the unigram total is at most \<open>2^1000\<close> times the order-1 weight (so the
  order-1 weight is positive and the unigram term, at least \<open>2^-1000\<close>, does not underflow
  to zero), and the totals of the queried context in the tables of the orders 2 to \<open>n\<close> are
  at most \<open>2^1000\<close>.  The order-0 weight plays no part.
\<close>

theorem prob_positive_for_seen_letter:
  assumes n: "1 \<le> n" "n \<le> 5"
    and keys: "\<forall>k. 1 \<le> k \<and> k \<le> n \<longrightarrow> (\<exists>v. lam k = Some v \<and> 0 \<le> v \<and> v \<le> 1)"
    and seen: "0 < counter_get (unigram_counts C) letter"
    and no_underflow: "real (counter_total (unigram_counts C)) \<le> 2 ^ 1000 * weight_of lam 1"
    and in_range: "\<forall>k. 2 \<le> k \<and> k \<le> n \<longrightarrow>
                     real (tab_total C k (conditional_of context)) \<le> 2 ^ 1000"
  shows "\<exists>s. get_ngram_prob letter context (int n) lam C = (Inr (ln (prob s)), s) \<and> 0 < prob s"
proof -
  let ?ctx = "conditional_of context"
  let ?cw = "spec_cascade C ?ctx letter n (0, weight_of lam)"
  from keys have keys': "\<forall>k. 1 \<le> k \<and> k \<le> n \<longrightarrow> lam k \<noteq> None" by auto
  from seen counter_get_le_total [of "unigram_counts C" letter]
  have tot: "0 < counter_total (unigram_counts C)" by simp
  then have "0 < real (counter_total (unigram_counts C))" by simp
  with no_underflow have "0 < 2 ^ 1000 * weight_of lam 1" by linarith
  then have w1: "0 < weight_of lam 1" by (simp add: zero_less_mult_iff)
  from tot have tot': "counter_total (unigram_counts C) \<noteq> 0" by simp
  from acc_cascade [OF n keys' tot', of letter "context"] obtain s where
    s: "get_ngram_prob_acc letter context (int n) lam C = (None, s)"
    and p: "prob s = fst ?cw + snd ?cw 1 * rel_freq C ?ctx letter 1" by blast
  have nn: "\<forall>j. 1 \<le> j \<and> j \<le> n \<longrightarrow> 0 \<le> weight_of lam j"
    using keys by (auto simp: weight_of_def)
  from cascade_nonneg [OF n(1) _ nn, of 0 C ?ctx letter]
  have c: "0 \<le> fst ?cw" "weight_of lam 1 \<le> snd ?cw 1" by simp_all
  have "0 < rel_freq C ?ctx letter 1" using seen tot by (simp add: rel_freq_def)
  moreover have "0 < snd ?cw 1" using c(2) w1 by linarith
  ultimately have "0 < snd ?cw 1 * rel_freq C ?ctx letter 1" by simp
  with c(1) p have "0 < prob s" by linarith
  with s show ?thesis by (auto simp: get_ngram_prob_def)
qed

theorem prob_positive_for_seen_letter_witness:
  "\<exists>s. get_ngram_prob ''c'' [''<s1>''] (int 2) lam_ex train_ex = (Inr (ln (prob s)), s) \<and> 0 < prob s"
proof -
  have a: "(1::nat) \<le> 2" and b: "(2::nat) \<le> 5" by simp_all
  have keys: "\<forall>k. 1 \<le> k \<and> k \<le> 2 \<longrightarrow> (\<exists>v. lam_ex k = Some v \<and> 0 \<le> v \<and> v \<le> 1)"
  proof (intro allI impI)
    fix k :: nat
    assume "1 \<le> k \<and> k \<le> 2"
    then have "k = 1 \<or> k = 2" by arith
    moreover have "\<exists>v. lam_ex 1 = Some v \<and> 0 \<le> v \<and> v \<le> 1"
      by (rule exI [of _ "1 / 100"]) (simp add: lam_ex_def)
    moreover have "\<exists>v. lam_ex 2 = Some v \<and> 0 \<le> v \<and> v \<le> 1"
      by (rule exI [of _ "98 / 100"]) (simp add: lam_ex_def)
    ultimately show "\<exists>v. lam_ex k = Some v \<and> 0 \<le> v \<and> v \<le> 1" by blast
  qed
  have seen: "0 < counter_get (unigram_counts train_ex) ''c''"
    by (simp add: train_ex_unigram counter_get_def)
  have no_underflow:
    "real (counter_total (unigram_counts train_ex)) \<le> 2 ^ 1000 * weight_of lam_ex 1"
    by (simp add: train_ex_unigram counter_total_def weight_of_def lam_ex_values)
  have in_range: "\<forall>k. 2 \<le> k \<and> k \<le> 2 \<longrightarrow>
                    real (tab_total train_ex k (conditional_of [''<s1>''])) \<le> 2 ^ 1000"
  proof (intro allI impI)
    fix k :: nat
    assume "2 \<le> k \<and> k \<le> 2"
    then have "k = 2" by arith
    then show "real (tab_total train_ex k (conditional_of [''<s1>''])) \<le> 2 ^ 1000"
      by (simp add: conditional_of_def train_ex_total)
  qed
  from prob_positive_for_seen_letter [OF a b keys seen no_underflow in_range] show ?thesis .
qed

text \<open>
  C3, as the claim states it, fails.  With the weights 0.01, 0.01, 0.98 (sum 1), order 2 and
  a context seen in training, the weights multiplied into the contributing orders are 0.98
  (order 2) and 0.01 (order 1, the lowest order reached): 0.99 in all.  The order-0 weight
  is not touched.
\<close>

theorem accounted_weight_below_one:
  "weight_of lam_ex 0 + weight_of lam_ex 1 + weight_of lam_ex 2 = 1 \<and>
   fst (get_ngram_prob_acc ''c'' [''<s1>''] 2 lam_ex train_ex) = None \<and>
   accounted_weight train_ex (conditional_of [''<s1>'']) 2
     (lambdas (snd (get_ngram_prob_acc ''c'' [''<s1>''] 2 lam_ex train_ex))) = 99 / 100"
  by (simp add: train_ex_acc accounted_weight_def contributing_def seen_orders_def
        train_ex_total conditional_of_def weight_of_def lam_ex_values upt_rec)

text \<open>
  C3, amended.  For an order \<open>n\<close> from 1 to 5, a non-empty unigram table and weights for
  the orders 0 to \<open>n\<close> that sum to 1, the computation succeeds, the accumulated probability
  is the sum over the contributing orders of the weight multiplied in times the relative
  frequency, and these weights (those of the orders 2 to \<open>n\<close> whose context was seen, and
  that of order 1 with everything cascaded into it) sum to 1 minus the configured order-0
  weight: cascading loses no weight of the orders 1 to \<open>n\<close>, and the order-0 weight is not
  part of the total.
\<close>

theorem accounted_weight_excludes_order_0:
  assumes n: "1 \<le> n" "n \<le> 5"
    and keys: "\<forall>k. 1 \<le> k \<and> k \<le> n \<longrightarrow> lam k \<noteq> None"
    and tot: "counter_total (unigram_counts C) \<noteq> 0"
    and one: "(\<Sum>k = 0..n. weight_of lam k) = 1"
  shows "\<exists>s. get_ngram_prob_acc letter context (int n) lam C = (None, s) \<and>
             prob s = sum_list (map (\<lambda>k. weight_of (lambdas s) k
                                          * rel_freq C (conditional_of context) letter k)
                                 (contributing C (conditional_of context) n)) \<and>
             accounted_weight C (conditional_of context) n (lambdas s) = 1 - weight_of lam 0"
proof -
  let ?ctx = "conditional_of context"
  let ?cw = "spec_cascade C ?ctx letter n (0, weight_of lam)"
  from acc_cascade [OF n keys tot, of letter "context"] obtain s where
    s: "get_ngram_prob_acc letter context (int n) lam C = (None, s)"
    and p: "prob s = fst ?cw + snd ?cw 1 * rel_freq C ?ctx letter 1"
    and l: "\<forall>k. lambdas s k = (if 1 \<le> k \<and> k \<le> n then Some (snd ?cw k) else lam k)"
    by blast
  have w: "\<And>k. 1 \<le> k \<and> k \<le> n \<Longrightarrow> weight_of (lambdas s) k = snd ?cw k"
    using l by (simp add: weight_of_def)
  have seen: "\<And>k. k \<in> set (seen_orders C ?ctx n) \<Longrightarrow> weight_of (lambdas s) k = snd ?cw k"
    using w seen_orders_le [of _ C ?ctx n] by force
  have "map (weight_of (lambdas s)) (seen_orders C ?ctx n) = map (snd ?cw) (seen_orders C ?ctx n)"
    using seen by simp
  then have m1: "sum_list (map (weight_of (lambdas s)) (seen_orders C ?ctx n))
               = sum_list (map (snd ?cw) (seen_orders C ?ctx n))"
    by (rule arg_cong)
  have "map (\<lambda>k. weight_of (lambdas s) k * rel_freq C ?ctx letter k) (seen_orders C ?ctx n)
          = map (\<lambda>k. snd ?cw k * rel_freq C ?ctx letter k) (seen_orders C ?ctx n)"
    using seen by simp
  then have m2: "sum_list (map (\<lambda>k. weight_of (lambdas s) k * rel_freq C ?ctx letter k)
                             (seen_orders C ?ctx n))
               = sum_list (map (\<lambda>k. snd ?cw k * rel_freq C ?ctx letter k) (seen_orders C ?ctx n))"
    by (rule arg_cong)
  have w1: "weight_of (lambdas s) 1 = snd ?cw 1" using w [of 1] n by simp
  note acc = cascade_account [OF n(1), of C ?ctx letter 0 "weight_of lam"]
  have "accounted_weight C ?ctx n (lambdas s) = (\<Sum>k = 1..n. weight_of lam k)"
    using acc m1 w1 by (simp add: accounted_weight_def contributing_def)
  moreover have "(\<Sum>k = 1..n. weight_of lam k) = 1 - weight_of lam 0"
    using one sum_split_zero [of "weight_of lam" n] by simp
  moreover have "prob s = sum_list (map (\<lambda>k. weight_of (lambdas s) k * rel_freq C ?ctx letter k)
                                 (contributing C ?ctx n))"
    using acc p m2 w1 by (simp add: contributing_def)
  ultimately show ?thesis using s by simp
qed


theorem accounted_weight_excludes_order_0_witness:
  "\<exists>s. get_ngram_prob_acc ''c'' [''<s1>''] (int 2) lam_ex train_ex = (None, s) \<and>
       prob s = sum_list (map (\<lambda>k. weight_of (lambdas s) k
                                    * rel_freq train_ex (conditional_of [''<s1>'']) ''c'' k)
                           (contributing train_ex (conditional_of [''<s1>'']) 2)) \<and>
       accounted_weight train_ex (conditional_of [''<s1>'']) 2 (lambdas s) = 1 - weight_of lam_ex 0"
proof -
  have a: "(1::nat) \<le> 2" and b: "(2::nat) \<le> 5" by simp_all
  have tot: "counter_total (unigram_counts train_ex) \<noteq> 0"
    by (simp add: train_ex_unigram counter_total_def)
  from accounted_weight_excludes_order_0 [OF a b lam_ex_keys tot lam_ex_sum] show ?thesis .
qed



text \<open>
  C10.  In a call with an order \<open>n\<close> from 3 to 5 and a context of length \<open>n - 1\<close>, the
  one key \<open>KTuple context\<close> is used for the tables of all orders 2 to \<open>n\<close>.  The tables
  are keyed as \<open>get_ngram_counts\<close> builds them (\<open>keyed\<close>: the order-2 table by single
  symbols, the order-\<open>k\<close> table by tuples of length \<open>k - 1\<close>; the built tables satisfy
  this, lemma \<open>keyed_train\<close>, and queries preserve it, lemma \<open>keyed_same_counts\<close>).  Then
  every intermediate order \<open>k\<close>, \<open>2 \<le> k < n\<close>, finds a zero total, contributes nothing
  and cascades its weight, so that the returned probability consists of the contribution of
  the top order \<open>n\<close> and of the unigram term, which carries the weights of the orders 1 to
  \<open>n - 1\<close> (and that of order \<open>n\<close> when its context is unseen too).
\<close>

theorem same_key_for_all_orders:
  assumes inv: "keyed C"
    and n: "3 \<le> n" "n \<le> 5"
    and len: "length context = n - 1"
    and keys: "\<forall>k. 1 \<le> k \<and> k \<le> n \<longrightarrow> lam k \<noteq> None"
    and tot: "counter_total (unigram_counts C) \<noteq> 0"
  shows "conditional_of context = KTuple context \<and>
         (\<forall>k. 2 \<le> k \<and> k < n \<longrightarrow> tab_total C k (KTuple context) = 0) \<and>
         (\<exists>s. get_ngram_prob_acc letter context (int n) lam C = (None, s) \<and>
              prob s =
                (if tab_total C n (KTuple context) = 0 then 0
                 else weight_of lam n * rel_freq C (KTuple context) letter n)
                + ((\<Sum>k = 1..<n. weight_of lam k)
                   + (if tab_total C n (KTuple context) = 0 then weight_of lam n else 0))
                  * rel_freq C (KTuple context) letter 1)"
proof -
  let ?ctx = "KTuple context"
  let ?w = "weight_of lam"
  from n len have "1 < length context" by arith
  then have cond: "conditional_of context = ?ctx" by (simp add: conditional_of_def)
  have unseen: "\<forall>k. 2 \<le> k \<and> k < n \<longrightarrow> tab_total C k ?ctx = 0"
    using keyed_intermediate_unseen [OF inv, of "context"] n len by auto
  obtain m where m: "n = Suc m" "2 \<le> m" using n by (cases n) auto
  then have m1: "1 \<le> m" by simp
  have unseen_m: "\<forall>j. 2 \<le> j \<and> j \<le> m \<longrightarrow> tab_total C j ?ctx = 0"
    using unseen m by auto
  have n1: "1 \<le> n" using n by simp
  from acc_cascade [OF n1 n(2) keys tot, of letter "context"] cond obtain s where
    s: "get_ngram_prob_acc letter context (int n) lam C = (None, s)"
    and p: "prob s = fst (spec_cascade C ?ctx letter n (0, ?w))
                   + snd (spec_cascade C ?ctx letter n (0, ?w)) 1 * rel_freq C ?ctx letter 1"
    by auto
  have rf: "rel_freq C ?ctx letter n = real (tab_count C n ?ctx letter) / real (tab_total C n ?ctx)"
    using n by (simp add: rel_freq_def)
  have sm: "{1..<n} = {1..m}" using m by auto
  have "prob s =
          (if tab_total C n ?ctx = 0 then 0 else ?w n * rel_freq C ?ctx letter n)
          + ((\<Sum>k = 1..<n. ?w k) + (if tab_total C n ?ctx = 0 then ?w n else 0))
            * rel_freq C ?ctx letter 1"
  proof (cases "tab_total C n ?ctx = 0")
    case True
    define w2 where "w2 = ?w(m := ?w m + ?w n)"
    have st: "spec_cascade C ?ctx letter n (0, ?w) = spec_cascade C ?ctx letter m (0, w2)"
      using m m1 True by (simp add: cascade_Suc spec_cascade_step_def w2_def)
    have "(\<Sum>j = 1..m. w2 j) = (\<Sum>j = 1..m. ?w j) + ?w n"
      using sum_upd_last [OF m1, of ?w "?w m + ?w n"] by (simp add: w2_def)
    with cascade_all_unseen [OF m1 unseen_m, of letter 0 w2] p True sm show ?thesis
      unfolding st by simp
  next
    case False
    let ?p = "?w n * real (tab_count C n ?ctx letter) / real (tab_total C n ?ctx)"
    have st: "spec_cascade C ?ctx letter n (0, ?w) = spec_cascade C ?ctx letter m (?p, ?w)"
      using m m1 False by (simp add: cascade_Suc spec_cascade_step_def)
    from cascade_all_unseen [OF m1 unseen_m, of letter ?p ?w] p False sm rf show ?thesis
      unfolding st by simp
  qed
  with cond unseen s show ?thesis by blast
qed

theorem same_key_for_all_orders_witness:
  "conditional_of [''<s1>'', ''c''] = KTuple [''<s1>'', ''c''] \<and>
   tab_total train_ex 2 (KTuple [''<s1>'', ''c'']) = 0 \<and>
   (\<exists>s. get_ngram_prob_acc ''a'' [''<s1>'', ''c''] (int 3) lam3_ex train_ex = (None, s) \<and>
        prob s =
          (if tab_total train_ex 3 (KTuple [''<s1>'', ''c'']) = 0 then 0
           else weight_of lam3_ex 3 * rel_freq train_ex (KTuple [''<s1>'', ''c'']) ''a'' 3)
          + ((\<Sum>k = 1..<3. weight_of lam3_ex k)
             + (if tab_total train_ex 3 (KTuple [''<s1>'', ''c'']) = 0
                then weight_of lam3_ex 3 else 0))
            * rel_freq train_ex (KTuple [''<s1>'', ''c'']) ''a'' 1)"
proof -
  have inv: "keyed train_ex" unfolding train_ex_def by (rule keyed_train)
  have a: "(3::nat) \<le> 3" and b: "(3::nat) \<le> 5" by simp_all
  have len: "length [''<s1>'', ''c''] = 3 - 1" by simp
  have tot: "counter_total (unigram_counts train_ex) \<noteq> 0"
    by (simp add: train_ex_unigram counter_total_def)
  note inst = same_key_for_all_orders [OF inv a b len lam3_ex_keys tot, of "''a''"]
  from inst have "tab_total train_ex 2 (KTuple [''<s1>'', ''c'']) = 0" by simp
  with inst show ?thesis by blast
qed


section \<open>What a query changes\<close>

lemma table_ext_refl: "table_ext T T"
  by (auto simp: table_ext_def intro: exI [of _ "[]"])

lemma table_ext_trans: "table_ext T T' \<Longrightarrow> table_ext T' T'' \<Longrightarrow> table_ext T T''"
  by (auto simp: table_ext_def)

lemma dd_get_ext: "table_ext T (snd (dd_get T key))"
  by (auto simp: dd_get_def table_ext_def split: option.splits)

lemma tables_ext_refl: "tables_ext C C"
  by (simp add: tables_ext_def table_ext_refl)

lemma tables_ext_trans: "tables_ext C C' \<Longrightarrow> tables_ext C' C'' \<Longrightarrow> tables_ext C C''"
  by (auto simp: tables_ext_def intro: table_ext_trans)

lemma table_ext_lookup:
  assumes "table_ext T T'"
  shows "tab_lookup T' key = tab_lookup T key"
proof -
  from assms obtain new where T': "T' = T @ new" and e: "list_all (\<lambda>e. snd e = []) new"
    by (auto simp: table_ext_def)
  show ?thesis
  proof (cases "map_of T key")
    case (Some c)
    then show ?thesis by (simp add: T' tab_lookup_def map_of_append map_add_def split: option.splits)
  next
    case None
    show ?thesis
    proof (cases "map_of new key")
      case None
      with \<open>map_of T key = None\<close> show ?thesis
        by (simp add: T' tab_lookup_def map_of_append map_add_def)
    next
      case (Some c)
      then have "(key, c) \<in> set new" by (rule map_of_SomeD)
      with e have "c = []" by (auto simp: list_all_iff)
      with Some \<open>map_of T key = None\<close> show ?thesis
        by (simp add: T' tab_lookup_def map_of_append map_add_def)
    qed
  qed
qed

lemma tables_ext_same_counts: "tables_ext C C' \<Longrightarrow> same_counts C C'"
  by (simp add: tables_ext_def same_counts_def table_ext_lookup)

lemma tables_ext_set_table: "tables_ext C (set_table k (snd (dd_get (higher_counts C k) key)) C)"
  by (simp add: tables_ext_def set_table_def dd_get_ext table_ext_refl)

lemma order_block_tables:
  "tables (snd (order_block k ctx letter s))
     = set_table k (snd (dd_get (higher_counts (tables s) k) ctx)) (tables s)"
  by (cases "dd_get (higher_counts (tables s) k) ctx")
     (simp add: order_block_def Let_def split: option.splits)

lemma order_block_ext: "tables_ext (tables s) (tables (snd (order_block k ctx letter s)))"
  by (simp add: order_block_tables tables_ext_set_table)

lemma unigram_block_ext: "tables_ext (tables s) (tables (snd (unigram_block letter s)))"
  by (simp add: unigram_block_def Let_def tables_ext_refl split: option.splits)

lemma skip_ext: "tables_ext (tables s) (tables (snd (skip s)))"
  by (simp add: skip_def tables_ext_refl)

lemma and_then_ext:
  assumes f: "\<And>s. tables_ext (tables s) (tables (snd (f s)))"
    and g: "\<And>s. tables_ext (tables s) (tables (snd (g s)))"
  shows "tables_ext (tables s) (tables (snd (and_then f g s)))"
proof (cases "f s")
  case (Pair r s')
  with f [of s] have 1: "tables_ext (tables s) (tables s')" by simp
  show ?thesis
  proof (cases r)
    case None
    with Pair have "and_then f g s = g s'" by (simp add: and_then_def)
    with tables_ext_trans [OF 1 g [of s']] show ?thesis by simp
  next
    case (Some e)
    with Pair 1 show ?thesis by (simp add: and_then_def)
  qed
qed

lemma guarded_ext:
  "tables_ext (tables s) (tables (snd ((if b then order_block k ctx letter else skip) s)))"
  by (simp add: order_block_ext skip_ext)

lemma higher_orders_ext: "tables_ext (tables s) (tables (snd (higher_orders letter ctx n s)))"
  unfolding higher_orders_def
  by (intro and_then_ext guarded_ext)

lemma get_ngram_prob_acc_ext:
  "tables_ext C (tables (snd (get_ngram_prob_acc letter context n lam C)))"
proof -
  have "\<And>s. tables_ext (tables s)
          (tables (snd ((if n > 0 then unigram_block letter else skip) s)))"
    by (simp add: unigram_block_ext skip_ext)
  from and_then_ext [of "higher_orders letter (conditional_of context) n", OF higher_orders_ext this,
      of "\<lparr>prob = 0, lambdas = lam, tables = C\<rparr>"]
  show ?thesis by (simp add: get_ngram_prob_acc_def)
qed

lemma get_ngram_prob_ext:
  "tables_ext C (tables (snd (get_ngram_prob letter context n lam C)))"
  using get_ngram_prob_acc_ext [of C letter "context" n lam]
  by (cases "get_ngram_prob_acc letter context n lam C")
     (auto simp: get_ngram_prob_def split: option.splits)


lemma world_grows_refl: "world_grows w w"
  by (simp add: world_grows_def tables_ext_refl)

lemma world_grows_trans: "world_grows w w' \<Longrightarrow> world_grows w' w'' \<Longrightarrow> world_grows w w''"
  by (auto simp: world_grows_def intro: tables_ext_trans)

lemma alloc_ext: "world_grows w (snd (alloc d w))"
  by (simp add: alloc_def world_grows_def tables_ext_refl)

lemma copy_then_call_ext:
  assumes "dict_copy la w = (a, w1)"
  shows "world_grows w (snd (call_get_ngram_prob letter context n a w1))"
proof -
  from assms have a: "a = length (heap w)" and h1: "heap w1 = heap w @ [heap w ! la]"
    and t1: "ngram_counts w1 = ngram_counts w"
    by (auto simp: dict_copy_def alloc_def)
  obtain r s where g: "get_ngram_prob letter context n (heap w1 ! a) (ngram_counts w1) = (r, s)"
    by (cases "get_ngram_prob letter context n (heap w1 ! a) (ngram_counts w1)")
  from get_ngram_prob_ext [of "ngram_counts w1" letter "context" n "heap w1 ! a"] g t1
  have "tables_ext (ngram_counts w) (tables s)" by simp
  moreover have "prefix (heap w) ((heap w1)[a := lambdas s])" by (simp add: a h1)
  ultimately show ?thesis using g by (simp add: call_get_ngram_prob_def world_grows_def)
qed

lemma letters_loop_ext:
  "world_grows w (snd (snd (letters_loop letters context n la (letter_probs, w))))"
proof (induction letters arbitrary: letter_probs w)
  case Nil
  then show ?case by (simp add: world_grows_refl)
next
  case (Cons letter rest)
  obtain a w1 where c: "dict_copy la w = (a, w1)" by (cases "dict_copy la w")
  obtain r w2 where g: "call_get_ngram_prob letter context n a w1 = (r, w2)"
    by (cases "call_get_ngram_prob letter context n a w1")
  from copy_then_call_ext [OF c, of letter "context" n] g have 1: "world_grows w w2" by simp
  show ?case
  proof (cases r)
    case (Inl e)
    with c g 1 show ?thesis by simp
  next
    case (Inr probability)
    with c g world_grows_trans [OF 1 Cons.IH [of w2 "add_prob letter_probs letter probability"]]
    show ?thesis by simp
  qed
qed

lemma blanks_loop_ext:
  "world_grows w (snd (snd (blanks_loop idxs word letter_available n la (letter_probs, w))))"
proof (induction idxs arbitrary: letter_probs w)
  case Nil
  then show ?case by (simp add: world_grows_refl)
next
  case (Cons i rest)
  show ?case
  proof (cases "word ! i = ''_''")
    case False
    with Cons.IH show ?thesis by simp
  next
    case True
    show ?thesis
    proof (cases "context_loop word n (int i - 1) 1 []")
      case (Inl e)
      with True show ?thesis by (simp add: world_grows_refl)
    next
      case (Inr ctx)
      obtain r lp' w' where l: "letters_loop letter_available ctx n la (letter_probs, w) = (r, lp', w')"
        by (cases "letters_loop letter_available ctx n la (letter_probs, w)")
      from letters_loop_ext [of w letter_available ctx n la letter_probs] l
      have 1: "world_grows w w'" by simp
      show ?thesis
      proof (cases r)
        case None
        with True Inr l world_grows_trans [OF 1 Cons.IH [of w' lp']] show ?thesis by simp
      next
        case (Some e)
        with True Inr l 1 show ?thesis by simp
      qed
    qed
  qed
qed

lemma ngram_guesser_ext: "world_grows w (snd (ngram_guesser msk guessed kw_n kw_lambdas w))"
proof -
  define start where "start = (case kw_lambdas of
                        Some a \<Rightarrow> if heap w ! a \<noteq> Map.empty then (a, w) else alloc [1 \<mapsto> 1] w
                      | None \<Rightarrow> alloc [1 \<mapsto> 1] w)"
  obtain la w0 where s: "start = (la, w0)" by (cases start)
  have 0: "world_grows w w0"
    using s alloc_ext [of w "[1 \<mapsto> 1]"]
    by (auto simp: start_def world_grows_refl split: option.splits if_splits)
  let ?word = "convert_word msk 2"
  let ?letters = "filter (\<lambda>letter. letter \<notin> guessed) ascii_lowercase"
  let ?n = "case kw_n of Some v \<Rightarrow> if v \<noteq> 0 then v else 1 | None \<Rightarrow> 1"
  obtain r lp w' where b: "blanks_loop [0..<length ?word] ?word ?letters ?n la ([], w0) = (r, lp, w')"
    by (cases "blanks_loop [0..<length ?word] ?word ?letters ?n la ([], w0)")
  from blanks_loop_ext [of w0 "[0..<length ?word]" ?word ?letters ?n la "[]"] b
  have "world_grows w0 w'" by simp
  with 0 have "world_grows w w'" by (rule world_grows_trans)
  moreover have "snd (ngram_guesser msk guessed kw_n kw_lambdas w) = w'"
    using s b by (simp add: ngram_guesser_def Let_def start_def [symmetric] split: option.splits)
  ultimately show ?thesis by simp
qed



subsection \<open>The entries a query of the engine adds\<close>

lemma dd_get_snd:
  "snd (dd_get T key) = (if map_of T key = None then T @ [(key, [])] else T)"
  by (auto simp: dd_get_def split: option.splits)

lemma guarded_block_tables:
  "unigram_counts (tables (snd ((if int n > int k - 1 then order_block k ctx letter else skip) s)))
     = unigram_counts (tables s) \<and>
   (\<forall>j. higher_counts (tables (snd ((if int n > int k - 1 then order_block k ctx letter else skip) s))) j
        = (if j = k \<and> k \<le> n then snd (dd_get (higher_counts (tables s) k) ctx)
           else higher_counts (tables s) j))"
proof (cases "k \<le> n")
  case True
  then show ?thesis by (simp add: order_block_tables set_table_def)
next
  case False
  then show ?thesis by (simp add: skip_def)
qed

lemma higher_orders_tables:
  assumes n: "n \<le> 5" and c: "corr n lam C pw s"
  shows "\<exists>s'. higher_orders letter ctx (int n) s = (None, s') \<and>
              unigram_counts (tables s') = unigram_counts (tables s) \<and>
              (\<forall>j. higher_counts (tables s') j =
                   (if 2 \<le> j \<and> j \<le> n then snd (dd_get (higher_counts (tables s) j) ctx)
                    else higher_counts (tables s) j))"
proof -
  let ?g = "\<lambda>k x. if k \<le> n then spec_cascade_step C ctx letter k x else x"
  let ?b = "\<lambda>k. if int n > int k - 1 then order_block k ctx letter else skip"
  let ?touch = "\<lambda>t k. snd (dd_get (higher_counts (tables t) k) ctx)"
  from guarded_block_corr [OF c, of 5 ctx letter] obtain s5 where
    s5: "?b 5 s = (None, s5)" "corr n lam C (?g 5 pw) s5" by auto
  from guarded_block_corr [OF s5(2), of 4 ctx letter] obtain s4 where
    s4: "?b 4 s5 = (None, s4)" "corr n lam C (?g 4 (?g 5 pw)) s4" by auto
  from guarded_block_corr [OF s4(2), of 3 ctx letter] obtain s3 where
    s3: "?b 3 s4 = (None, s3)" "corr n lam C (?g 3 (?g 4 (?g 5 pw))) s3" by auto
  from guarded_block_corr [OF s3(2), of 2 ctx letter] obtain s2 where
    s2: "?b 2 s3 = (None, s2)" "corr n lam C (?g 2 (?g 3 (?g 4 (?g 5 pw)))) s2" by auto
  have ho: "higher_orders letter ctx (int n) s = (None, s2)"
    unfolding higher_orders_def
    using and_then_ok [of "?b 5" s s5, OF s5(1)] and_then_ok [of "?b 4" s5 s4, OF s4(1)]
      and_then_ok [of "?b 3" s4 s3, OF s3(1)] s2(1)
    by simp
  from guarded_block_tables [of 5 n ctx letter s] s5(1)
  have t5: "unigram_counts (tables s5) = unigram_counts (tables s)"
    "\<And>j. higher_counts (tables s5) j =
       (if j = 5 \<and> 5 \<le> n then ?touch s 5 else higher_counts (tables s) j)"
    by simp_all
  from guarded_block_tables [of 4 n ctx letter s5] s4(1)
  have t4: "unigram_counts (tables s4) = unigram_counts (tables s5)"
    "\<And>j. higher_counts (tables s4) j =
       (if j = 4 \<and> 4 \<le> n then ?touch s5 4 else higher_counts (tables s5) j)"
    by simp_all
  from guarded_block_tables [of 3 n ctx letter s4] s3(1)
  have t3: "unigram_counts (tables s3) = unigram_counts (tables s4)"
    "\<And>j. higher_counts (tables s3) j =
       (if j = 3 \<and> 3 \<le> n then ?touch s4 3 else higher_counts (tables s4) j)"
    by simp_all
  from guarded_block_tables [of 2 n ctx letter s3] s2(1)
  have t2: "unigram_counts (tables s2) = unigram_counts (tables s3)"
    "\<And>j. higher_counts (tables s2) j =
       (if j = 2 \<and> 2 \<le> n then ?touch s3 2 else higher_counts (tables s3) j)"
    by simp_all
  have u: "unigram_counts (tables s2) = unigram_counts (tables s)"
    by (simp add: t2(1) t3(1) t4(1) t5(1))
  have h: "higher_counts (tables s2) j =
             (if 2 \<le> j \<and> j \<le> n then ?touch s j else higher_counts (tables s) j)" for j
  proof -
    consider "j = 2" | "j = 3" | "j = 4" | "j = 5" | "j < 2 \<or> 5 < j" by arith
    then show ?thesis
    proof cases
      case 1 then show ?thesis by (simp add: t2(2) t3(2) t4(2) t5(2))
    next
      case 2 then show ?thesis by (simp add: t2(2) t3(2) t4(2) t5(2))
    next
      case 3 then show ?thesis by (simp add: t2(2) t3(2) t4(2) t5(2))
    next
      case 4 then show ?thesis by (simp add: t2(2) t3(2) t4(2) t5(2))
    next
      case 5 then show ?thesis using n by (auto simp: t2(2) t3(2) t4(2) t5(2))
    qed
  qed
  from ho u h show ?thesis by blast
qed

lemma unigram_block_tables: "tables (snd (unigram_block letter s)) = tables s"
  by (simp add: unigram_block_def Let_def split: option.splits)

lemma get_ngram_prob_state:
  "tables (snd (get_ngram_prob letter context n lam C))
     = tables (snd (get_ngram_prob_acc letter context n lam C))"
  by (cases "get_ngram_prob_acc letter context n lam C")
     (auto simp: get_ngram_prob_def split: option.splits)

lemma get_ngram_prob_tables:
  assumes n: "n \<le> 5" and keys: "\<forall>k. 1 \<le> k \<and> k \<le> n \<longrightarrow> lam k \<noteq> None"
  shows "unigram_counts (tables (snd (get_ngram_prob letter context (int n) lam C)))
           = unigram_counts C \<and>
         (\<forall>k. higher_counts (tables (snd (get_ngram_prob letter context (int n) lam C))) k =
              (if 2 \<le> k \<and> k \<le> n \<and> map_of (higher_counts C k) (conditional_of context) = None
               then higher_counts C k @ [(conditional_of context, [])]
               else higher_counts C k))"
proof -
  let ?ctx = "conditional_of context"
  let ?s0 = "\<lparr>prob = 0, lambdas = lam, tables = C\<rparr>"
  from higher_orders_tables [OF n corr_init_weight_of [OF keys], of letter ?ctx C]
  obtain s' where s': "higher_orders letter ?ctx (int n) ?s0 = (None, s')"
    and u: "unigram_counts (tables s') = unigram_counts C"
    and h: "\<forall>j. higher_counts (tables s') j =
                (if 2 \<le> j \<and> j \<le> n then snd (dd_get (higher_counts C j) ?ctx)
                 else higher_counts C j)"
    by auto
  have "get_ngram_prob_acc letter context (int n) lam C
          = (if int n > 0 then unigram_block letter else skip) s'"
    using s' by (simp add: get_ngram_prob_acc_def and_then_def)
  then have "tables (snd (get_ngram_prob_acc letter context (int n) lam C)) = tables s'"
    by (simp add: unigram_block_tables skip_def)
  then have "tables (snd (get_ngram_prob letter context (int n) lam C)) = tables s'"
    by (simp add: get_ngram_prob_state)
  with u h show ?thesis by (simp add: dd_get_snd)
qed

subsection \<open>Concrete queries\<close>

lemma train_ex_trigram_start:
  "tab_total train_ex 3 (KTuple [''<s1>'', ''<s2>'']) = 3"
  by (simp add: tab_total_def tab_lookup_def train_ex_def train_def eval_counts counter_total_def)


lemma get_ngram_prob_unseen_context:
  "get_ngram_prob_acc ''a'' [''q''] 2 lam_ex train_ex =
     (None, \<lparr>prob = 99 / 100 * 3 / 10, lambdas = lam_ex(1 \<mapsto> 99 / 100),
             tables = set_table 2 (higher_counts train_ex 2 @ [(KStr ''q'', [])]) train_ex\<rparr>)"
  by (simp add: get_ngram_prob_acc_def higher_orders_def and_then_def skip_def
        order_block_def unigram_block_def conditional_of_def dd_get_def
        train_ex_unigram train_ex_bigram lam_ex_values counter_get_def
        counter_total_def set_table_def)


lemma call_mutates_the_dictionary_it_gets:
  "heap (snd (call_get_ngram_prob ''a'' [''q''] 2 0 world_ex)) ! 0 = lam_ex(1 \<mapsto> 99 / 100)"
  by (simp add: call_get_ngram_prob_def world_ex_def get_ngram_prob_def
        get_ngram_prob_unseen_context)


section \<open>Claims about the guess selector and the tables\<close>

text \<open>
  C4.  A call of \<open>ngram_guesser\<close> leaves the caller's weight dictionary unchanged: for
  every mask, guessed set, order and store, the object at the caller's address \<open>la\<close> holds
  the same entries after the call.  Every call of \<open>get_ngram_prob\<close> is made on a fresh copy
  (\<open>dict_copy\<close>), and \<open>get_ngram_prob\<close> writes only to the object it is given (which it
  does change, lemma \<open>call_mutates_the_dictionary_it_gets\<close>).
\<close>

theorem ngram_guesser_keeps_callers_lambdas:
  assumes "la < length (heap w)"
  shows "heap (snd (ngram_guesser msk guessed kw_n (Some la) w)) ! la = heap w ! la"
proof -
  from ngram_guesser_ext [of w msk guessed kw_n "Some la"]
  have "prefix (heap w) (heap (snd (ngram_guesser msk guessed kw_n (Some la) w)))"
    by (simp add: world_grows_def)
  then obtain zs where "heap (snd (ngram_guesser msk guessed kw_n (Some la) w)) = heap w @ zs"
    by (auto simp: prefix_def)
  with assms show ?thesis by (simp add: nth_append)
qed


theorem ngram_guesser_keeps_callers_lambdas_witness:
  "0 < length (heap world_ex) \<and>
   heap (snd (ngram_guesser [''_'', ''a'', ''t''] {} (Some 2) (Some 0) world_ex)) ! 0
     = heap world_ex ! 0"
proof -
  have h: "0 < length (heap world_ex)" by (simp add: world_ex_def)
  from ngram_guesser_keeps_callers_lambdas [OF h] h show ?thesis by simp
qed


text \<open>
  C5, as the claim states it, fails: reading a \<open>defaultdict\<close> under a missing key inserts
  the key.  After training on \<open>cats, cat, bat\<close>, a query of order 2 with the context
  \<open>q\<close>, never seen in training, leaves the order-2 table with one more entry, \<open>q\<close> with an
  empty \<open>Counter\<close>.
\<close>

theorem query_adds_table_entry:
  "higher_counts (tables (snd (get_ngram_prob ''a'' [''q''] 2 lam_ex train_ex))) 2
     = higher_counts train_ex 2 @ [(KStr ''q'', [])] \<and>
   higher_counts (tables (snd (get_ngram_prob ''a'' [''q''] 2 lam_ex train_ex))) 2
     \<noteq> higher_counts train_ex 2"
  by (simp add: get_ngram_prob_def get_ngram_prob_unseen_context set_table_def)


text \<open>
  C5, amended.  No query of \<open>get_ngram_prob\<close> or of \<open>ngram_guesser\<close>, whether it returns
  or raises, removes or alters an entry of the tables: the unigram table is unchanged and
  every table of a higher order is the old table followed by entries with an empty
  \<open>Counter\<close> (\<open>tables_ext\<close>), so that every count and every total, for every order,
  context and letter, is the same before and after the query (\<open>same_counts\<close>).  And a
  query does add entries: a call of \<open>get_ngram_prob\<close> with an order \<open>n\<close> up to 5,
  weights present for the orders 1 to \<open>n\<close> and totals of the queried context within the
  range of floating point (at most \<open>2^1000\<close>) changes the tables exactly so: to every
  table of an order \<open>k\<close> from 2 to \<open>n\<close> that does not have the queried context as a key,
  it appends that key with an empty \<open>Counter\<close>; the tables that have the key, the tables
  of the other orders and the unigram table are left as they are.
\<close>

theorem queries_only_append_empty_entries:
  assumes "n \<le> 5" and "\<forall>k. 1 \<le> k \<and> k \<le> n \<longrightarrow> lam k \<noteq> None"
    and "\<forall>k. 2 \<le> k \<and> k \<le> n \<longrightarrow> real (tab_total C k (conditional_of context)) \<le> 2 ^ 1000"
  shows "unigram_counts (tables (snd (get_ngram_prob letter context (int n) lam C)))
           = unigram_counts C \<and>
         (\<forall>k. higher_counts (tables (snd (get_ngram_prob letter context (int n) lam C))) k =
              (if 2 \<le> k \<and> k \<le> n \<and> map_of (higher_counts C k) (conditional_of context) = None
               then higher_counts C k @ [(conditional_of context, [])]
               else higher_counts C k)) \<and>
         tables_ext C' (tables (snd (get_ngram_prob letter' context' n' lam' C'))) \<and>
         same_counts C' (tables (snd (get_ngram_prob letter' context' n' lam' C'))) \<and>
         tables_ext (ngram_counts w)
           (ngram_counts (snd (ngram_guesser msk guessed kw_n kw_lambdas w))) \<and>
         same_counts (ngram_counts w)
           (ngram_counts (snd (ngram_guesser msk guessed kw_n kw_lambdas w)))"
proof -
  have 1: "tables_ext C' (tables (snd (get_ngram_prob letter' context' n' lam' C')))"
    by (rule get_ngram_prob_ext)
  have 2: "tables_ext (ngram_counts w)
             (ngram_counts (snd (ngram_guesser msk guessed kw_n kw_lambdas w)))"
    using ngram_guesser_ext [of w msk guessed kw_n kw_lambdas] by (simp add: world_grows_def)
  from get_ngram_prob_tables [OF assms(1,2), of letter "context" C]
    1 2 tables_ext_same_counts [OF 1] tables_ext_same_counts [OF 2]
  show ?thesis by simp
qed

theorem queries_only_append_empty_entries_witness:
  "unigram_counts (tables (snd (get_ngram_prob ''a'' [''q''] (int 2) lam_ex train_ex)))
     = unigram_counts train_ex \<and>
   higher_counts (tables (snd (get_ngram_prob ''a'' [''q''] (int 2) lam_ex train_ex))) 2
     = higher_counts train_ex 2 @ [(KStr ''q'', [])] \<and>
   higher_counts (tables (snd (get_ngram_prob ''a'' [''q''] (int 2) lam_ex train_ex))) 3
     = higher_counts train_ex 3 \<and>
   higher_counts (tables (snd (get_ngram_prob ''a'' [''<s1>''] (int 2) lam_ex train_ex))) 2
     = higher_counts train_ex 2"
proof -
  have a: "(2::nat) \<le> 5" by simp
  have q: "conditional_of [''q''] = KStr ''q''" and s: "conditional_of [''<s1>''] = KStr ''<s1>''"
    by (simp_all add: conditional_of_def)
  have absent: "map_of (higher_counts train_ex 2) (KStr ''q'') = None"
    by (simp add: train_ex_bigram)
  have present: "map_of (higher_counts train_ex 2) (KStr ''<s1>'') \<noteq> None"
    by (simp add: train_ex_bigram)
  have rq: "\<forall>k. 2 \<le> k \<and> k \<le> 2 \<longrightarrow>
              real (tab_total train_ex k (conditional_of [''q''])) \<le> 2 ^ 1000"
  proof (intro allI impI)
    fix k :: nat
    assume "2 \<le> k \<and> k \<le> 2"
    then have "k = 2" by arith
    then show "real (tab_total train_ex k (conditional_of [''q''])) \<le> 2 ^ 1000"
      by (simp add: q tab_total_def tab_lookup_def absent counter_total_def)
  qed
  have rs: "\<forall>k. 2 \<le> k \<and> k \<le> 2 \<longrightarrow>
              real (tab_total train_ex k (conditional_of [''<s1>''])) \<le> 2 ^ 1000"
  proof (intro allI impI)
    fix k :: nat
    assume "2 \<le> k \<and> k \<le> 2"
    then have "k = 2" by arith
    then show "real (tab_total train_ex k (conditional_of [''<s1>''])) \<le> 2 ^ 1000"
      by (simp add: s train_ex_total)
  qed
  note unseen = queries_only_append_empty_entries [OF a lam_ex_keys rq, of "''a''"]
  note seen = queries_only_append_empty_entries [OF a lam_ex_keys rs, of "''a''"]
  from unseen have
    u: "unigram_counts (tables (snd (get_ngram_prob ''a'' [''q''] (int 2) lam_ex train_ex)))
          = unigram_counts train_ex"
    and h: "\<forall>k. higher_counts (tables (snd (get_ngram_prob ''a'' [''q''] (int 2) lam_ex train_ex))) k =
              (if 2 \<le> k \<and> k \<le> 2 \<and> map_of (higher_counts train_ex k) (conditional_of [''q'']) = None
               then higher_counts train_ex k @ [(conditional_of [''q''], [])]
               else higher_counts train_ex k)"
    by blast+
  from seen have
    h': "\<forall>k. higher_counts (tables (snd (get_ngram_prob ''a'' [''<s1>''] (int 2) lam_ex train_ex))) k =
              (if 2 \<le> k \<and> k \<le> 2 \<and> map_of (higher_counts train_ex k) (conditional_of [''<s1>'']) = None
               then higher_counts train_ex k @ [(conditional_of [''<s1>''], [])]
               else higher_counts train_ex k)"
    by blast
  from h [rule_format, of 2] absent q
  have h2: "higher_counts (tables (snd (get_ngram_prob ''a'' [''q''] (int 2) lam_ex train_ex))) 2
              = higher_counts train_ex 2 @ [(KStr ''q'', [])]" by simp
  from h [rule_format, of 3]
  have h3: "higher_counts (tables (snd (get_ngram_prob ''a'' [''q''] (int 2) lam_ex train_ex))) 3
              = higher_counts train_ex 3" by simp
  from h' [rule_format, of 2] present s
  have h4: "higher_counts (tables (snd (get_ngram_prob ''a'' [''<s1>''] (int 2) lam_ex train_ex))) 2
              = higher_counts train_ex 2" by simp
  from u h2 h3 h4 show ?thesis by blast
qed

text \<open>
  C6.  The code does not do what the claim says.  \<open>ngram_guesser\<close> pads the mask with
  \<open>convert_word(mask,2)\<close> whatever the order, so for the mask \<open>_ a t\<close> and order 3 the
  context of the first blank is the single symbol \<open><s1>\<close>, while \<open>get_ngram_counts\<close>
  pads a training word for order 3 with \<open><s1>\<close>, \<open><s2>\<close>.  The order-3 table built from
  \<open>cats, cat, bat\<close> has the word-start context \<open>(<s1>, <s2>)\<close> with total 3, and the
  selector's key \<open><s1>\<close> has total 0 in it.
\<close>

theorem word_start_context_mismatch:
  "convert_word [''_'', ''a'', ''t''] 2 = [''<s1>'', ''_'', ''a'', ''t'', ''</s1>''] \<and>
   context_loop (convert_word [''_'', ''a'', ''t''] 2) 3 (int 1 - 1) 1 [] = Inr [''<s1>''] \<and>
   take 2 (convert_word (chars_of ''cat'') 3) = [''<s1>'', ''<s2>''] \<and>
   tab_total train_ex 3 (KTuple [''<s1>'', ''<s2>'']) = 3 \<and>
   tab_total train_ex 3 (conditional_of [''<s1>'']) = 0"
proof -
  have w: "convert_word [''_'', ''a'', ''t''] 2 = [''<s1>'', ''_'', ''a'', ''t'', ''</s1>'']"
    by (simp add: eval_convert)
  have c: "context_loop [''<s1>'', ''_'', ''a'', ''t'', ''</s1>''] 3 (int 1 - 1) 1 [] = Inr [''<s1>'']"
    by (simp add: context_loop.simps py_index_def)
  have p: "take 2 (convert_word (chars_of ''cat'') 3) = [''<s1>'', ''<s2>'']"
    by (simp add: eval_convert)
  have "keyed train_ex" unfolding train_ex_def by (rule keyed_train)
  moreover have "\<not> key_ok 3 (conditional_of [''<s1>''])"
    by (simp add: conditional_of_def key_ok_def)
  ultimately have z: "tab_total train_ex 3 (conditional_of [''<s1>'']) = 0"
    unfolding keyed_def by blast
  from w c p z train_ex_trigram_start show ?thesis by simp
qed



end
